theory Spec2Isabelle
  imports Main "HOL-Library.Multiset"
begin

section \<open>Python values and dictionaries\<close>

text \<open>
  The values that travel between the caller and the store. \<open>VNone\<close> is Python's \<open>None\<close>,
  which the store holds as NULL. \<open>VDec\<close> is a \<open>Decimal\<close> of the DECIMAL(38, 18) columns,
  given as its number of \<open>10\<^sup>-\<^sup>1\<^sup>8\<close> units. \<open>VList\<close> is a list of strings (the ARRAY columns),
  \<open>VJson\<close> the serialised JSON payload of an event.
\<close>

datatype val = VNone | VInt int | VStr string | VBool bool | VDec int
  | VList "string list" | VJson string

text \<open>
  A dictionary from attribute names to values: \<open>vars(instance)\<close>, a row in dict form, and a
  row fetched from the store. The first binding of a name is the one that counts.
\<close>

type_synonym pydict = "(string \<times> val) list"

definition keys :: "pydict \<Rightarrow> string list" where
  "keys d = map fst d"

definition attr :: "pydict \<Rightarrow> string \<Rightarrow> val" where
  "attr d k = (case map_of d k of Some v \<Rightarrow> v | None \<Rightarrow> VNone)"

section \<open>The schema of \<open>Pgsql.__init__\<close>\<close>

datatype coltype = TString nat | TBigInteger | TInteger | TDecimal nat nat | TBoolean
  | TEnum string "string list" | TJson | TArray coltype

record column =
  cname :: string
  ctype :: coltype
  primary_key :: bool
  cdefault :: "val option"

definition Column :: "string \<Rightarrow> coltype \<Rightarrow> column" where
  "Column n ty = \<lparr>cname = n, ctype = ty, primary_key = False, cdefault = None\<rparr>"

definition Column_pk :: "string \<Rightarrow> coltype \<Rightarrow> column" where
  "Column_pk n ty = \<lparr>cname = n, ctype = ty, primary_key = True, cdefault = None\<rparr>"

definition Column_default :: "string \<Rightarrow> coltype \<Rightarrow> val \<Rightarrow> column" where
  "Column_default n ty v = \<lparr>cname = n, ctype = ty, primary_key = False, cdefault = Some v\<rparr>"

record table =
  tname :: string
  tcols :: "column list"

record index =
  iname :: string
  itable :: string
  icol :: string

definition Index :: "string \<Rightarrow> table \<Rightarrow> string \<Rightarrow> index" where
  "Index n t c = \<lparr>iname = n, itable = tname t, icol = c\<rparr>"

definition event :: table where
  "event = \<lparr>tname = ''event'', tcols =
    [Column_pk ''id'' (TString 255),
     Column ''event_type'' (TEnum ''event_type'' [''TRANSFER'', ''INSCRIBE'']),
     Column ''block_height'' TBigInteger,
     Column ''block_index'' TBigInteger,
     Column ''timestamp'' TBigInteger,
     Column ''inscription_id'' (TString 255),
     Column ''inscription_number'' TBigInteger,
     Column ''sender'' (TString 255),
     Column ''receiver'' (TString 255),
     Column ''content'' TJson,
     Column ''operation'' (TString 255),
     Column ''function_id'' TBigInteger,
     Column ''valid'' TBoolean,
     Column ''error'' (TString 255)]\<rparr>"

definition pending_inscriptions :: table where
  "pending_inscriptions = \<lparr>tname = ''pending_inscriptions'', tcols =
    [Column_pk ''id'' (TString 255),
     Column_default ''inscriptions'' (TArray (TString 255)) (VList [])]\<rparr>"

definition token :: table where
  "token = \<lparr>tname = ''token'', tcols =
    [Column_pk ''id'' TBigInteger,
     Column ''tick'' (TString 255),
     Column ''max'' (TDecimal 38 18),
     Column ''lim'' (TDecimal 38 18),
     Column ''dec'' TInteger,
     Column ''ug'' TBoolean,
     Column ''mp'' TBoolean,
     Column ''deployer'' (TString 255),
     Column ''deploy_time'' TBigInteger,
     Column ''inscription_id'' (TString 255),
     Column_default ''first_number'' TBigInteger (VInt 0),
     Column_default ''first_id'' (TString 255) (VStr ''''),
     Column_default ''first_time'' TBigInteger (VInt 0),
     Column_default ''last_number'' TBigInteger (VInt 0),
     Column_default ''last_id'' (TString 255) (VStr ''''),
     Column_default ''last_time'' TBigInteger (VInt 0),
     Column_default ''minted'' (TDecimal 38 18) (VInt 0),
     Column_default ''burned'' (TDecimal 38 18) (VInt 0),
     Column_default ''circulating'' (TDecimal 38 18) (VInt 0),
     Column_default ''holders'' TBigInteger (VInt 0),
     Column_default ''last_upgrade_time'' TBigInteger (VInt 0),
     Column_default ''upgrade_records'' (TArray (TString 255)) (VList [])]\<rparr>"

definition token_index_list :: "index list" where
  "token_index_list =
    [Index ''deployer'' token ''deployer'',
     Index ''inscription_id'' token ''inscription_id'']"

definition balance :: table where
  "balance = \<lparr>tname = ''balance'', tcols =
    [Column_pk ''id'' (TString 255),
     Column ''tick'' (TString 255),
     Column ''tid'' TBigInteger,
     Column ''inscription_id'' (TString 255),
     Column ''address'' (TString 255),
     Column ''balance'' (TDecimal 38 18),
     Column ''available_balance'' (TDecimal 38 18),
     Column ''transferable_balance'' (TDecimal 38 18),
     Column ''original_balance'' (TDecimal 38 18)]\<rparr>"

definition balance_index_list :: "index list" where
  "balance_index_list =
    [Index ''tid'' balance ''tid'',
     Index ''address'' balance ''address'']"

definition otc :: table where
  "otc = \<lparr>tname = ''otc'', tcols =
    [Column_pk ''id'' TBigInteger,
     Column ''tick1'' (TString 255),
     Column ''tid1'' TBigInteger,
     Column ''supply'' (TDecimal 38 18),
     Column ''tick2'' (TString 255),
     Column ''tid2'' TBigInteger,
     Column ''er'' (TDecimal 38 18),
     Column ''mba'' (TDecimal 38 18),
     Column ''dl'' TBigInteger,
     Column ''owner'' (TString 255),
     Column ''deploy_time'' TBigInteger,
     Column ''inscription_id'' (TString 255),
     Column ''valid'' TBoolean,
     Column ''success'' TBoolean,
     Column ''received'' (TDecimal 38 18),
     Column ''execute_id'' (TString 255)]\<rparr>"

definition otc_index_list :: "index list" where
  "otc_index_list =
    [Index ''owner'' otc ''owner'',
     Index ''inscription_id'' otc ''inscription_id'',
     Index ''tid1'' otc ''tid1'',
     Index ''tid2'' otc ''tid2'']"

definition otc_record :: table where
  "otc_record = \<lparr>tname = ''otc_record'', tcols =
    [Column_pk ''id'' (TString 255),
     Column ''oid'' TBigInteger,
     Column ''inscription_id'' (TString 255),
     Column ''address'' (TString 255),
     Column ''amount_out'' (TDecimal 38 18),
     Column ''amount_in'' (TDecimal 38 18)]\<rparr>"

definition otc_record_index_list :: "index list" where
  "otc_record_index_list =
    [Index ''oid'' otc_record ''oid'',
     Index ''inscription_id'' otc_record ''inscription_id'',
     Index ''address'' otc_record ''address'']"

definition colnames :: "table \<Rightarrow> string list" where
  "colnames t = map cname (tcols t)"

section \<open>The store\<close>

text \<open>
  What the engine of \<open>init\<close> talks to. \<open>connected\<close>: acquiring a connection succeeds.
  \<open>rejects\<close>: the rows the store refuses for a table (a value too long, out of range or of
  the wrong type); which rows these are is left open. \<open>tabs\<close>: the tables that exist, each with
  its rows in the order a scan returns them and the next value of the sequence behind an integer
  key. \<open>idxs\<close>: the indexes that exist. Tables and indexes share one namespace. \<open>types\<close>: the
  enumerated types that exist.
\<close>

record tstate =
  trows :: "pydict list"
  tseq :: int

record db =
  connected :: bool
  rejects :: "string \<Rightarrow> pydict \<Rightarrow> bool"
  tabs :: "string \<rightharpoonup> tstate"
  idxs :: "index list"
  types :: "string list"

datatype fault = ConnectionFault | UndefinedTable | UndefinedObject | WrongObjectType
  | CompileError
  | NotNullViolation | CardinalityViolation | StoreRejected | TypeError

text \<open>\<open>raise Exception(f"Pgsql::op: ... {e}")\<close>: the operation and the cause.\<close>

datatype error = Failed string fault

type_synonym 'a outcome = "(error + 'a) \<times> db"

definition relation_exists :: "db \<Rightarrow> string \<Rightarrow> bool" where
  "relation_exists d n = (tabs d n \<noteq> None \<or> n \<in> set (map iname (idxs d)))"

subsection \<open>Statements of the lifecycle manager\<close>

text \<open>\<open>DROP TABLE IF EXISTS "n" CASCADE\<close>: the table goes, and its indexes with it.\<close>

definition drop_table :: "string \<Rightarrow> db \<Rightarrow> fault + db" where
  "drop_table n d =
    (if tabs d n = None \<and> n \<in> set (map iname (idxs d)) then Inl WrongObjectType
     else Inr (d\<lparr>tabs := (tabs d)(n := None),
                 idxs := filter (\<lambda>i. itable i \<noteq> n) (idxs d)\<rparr>))"

text \<open>\<open>CreateTable(table, if_not_exists=True)\<close>: skipped when the name is taken. The statement
  creates the table alone, not the enumerated types its columns are declared with: when such a
  type is not in the store, the statement fails.\<close>

fun enum_name :: "coltype \<Rightarrow> string option" where
  "enum_name (TEnum n vs) = Some n"
| "enum_name ty = None"

definition enum_types :: "table \<Rightarrow> string list" where
  "enum_types t = List.map_filter (\<lambda>c. enum_name (ctype c)) (tcols t)"

definition CreateTable :: "table \<Rightarrow> db \<Rightarrow> fault + db" where
  "CreateTable t d =
    (if relation_exists d (tname t) then Inr d
     else if list_ex (\<lambda>n. n \<notin> set (types d)) (enum_types t) then Inl UndefinedObject
     else Inr (d\<lparr>tabs := (tabs d)(tname t \<mapsto> \<lparr>trows = [], tseq = 1\<rparr>)\<rparr>))"

text \<open>\<open>CreateIndex(index, if_not_exists=True)\<close>: skipped when the name is taken, by whatever
  relation.\<close>

definition CreateIndex :: "index \<Rightarrow> db \<Rightarrow> fault + db" where
  "CreateIndex i d =
    (if relation_exists d (iname i) then Inr d
     else if tabs d (itable i) = None then Inl UndefinedTable
     else Inr (d\<lparr>idxs := idxs d @ [i]\<rparr>))"

text \<open>Statements run one after the other, each committed on its own; the first failure stops
  the run and keeps what the earlier ones did.\<close>

fun execute_all :: "(db \<Rightarrow> fault + db) list \<Rightarrow> db \<Rightarrow> (fault + unit) \<times> db" where
  "execute_all [] d = (Inr (), d)"
| "execute_all (s # ss) d =
    (case s d of Inl f \<Rightarrow> (Inl f, d) | Inr d' \<Rightarrow> execute_all ss d')"

definition raise_as :: "string \<Rightarrow> (fault + 'a) \<times> db \<Rightarrow> 'a outcome" where
  "raise_as opn r = (case r of (Inl f, d) \<Rightarrow> (Inl (Failed opn f), d) | (Inr x, d) \<Rightarrow> (Inr x, d))"

definition clear_table :: "table \<Rightarrow> string \<Rightarrow> index list \<Rightarrow> db \<Rightarrow> unit outcome" where
  "clear_table t table_name index_list d =
    raise_as ''Pgsql::clear_table''
      (if \<not> connected d then (Inl ConnectionFault, d)
       else execute_all
         ([drop_table table_name, CreateTable t] @ map CreateIndex index_list) d)"

definition create_table :: "table \<Rightarrow> index list \<Rightarrow> db \<Rightarrow> unit outcome" where
  "create_table t index_list d =
    raise_as ''Pgsql::create_table''
      (if \<not> connected d then (Inl ConnectionFault, d)
       else execute_all (CreateTable t # map CreateIndex index_list) d)"

text \<open>\<open>await a; await b\<close>: \<open>b\<close> runs only when \<open>a\<close> did not raise.\<close>

definition and_then :: "unit outcome \<Rightarrow> (db \<Rightarrow> 'a outcome) \<Rightarrow> 'a outcome" where
  "and_then r f = (case r of (Inl e, d) \<Rightarrow> (Inl e, d) | (Inr u, d) \<Rightarrow> f d)"

definition clear_all_tables :: "db \<Rightarrow> unit outcome" where
  "clear_all_tables d =
    and_then (clear_table token ''token'' token_index_list d) (\<lambda>d.
    and_then (clear_table balance ''balance'' balance_index_list d) (\<lambda>d.
    and_then (clear_table pending_inscriptions ''pending_inscriptions'' [] d) (\<lambda>d.
    and_then (clear_table otc ''otc'' otc_index_list d) (\<lambda>d.
    clear_table otc_record ''otc_record'' otc_record_index_list d))))"

section \<open>The upsert engine\<close>

subsection \<open>What SQLAlchemy renders for \<open>insert(table).values(...)\<close>\<close>

text \<open>
  \<open>values\<close> takes one dictionary or a list of them; an empty list is read as one row with no
  value given. The columns of the statement are those the first row names and those with a
  declared default. A name of the first row that is no column of the table is refused
  (unconsumed column names); the names of the later rows are not checked. Every row binds, for
  each column of the statement, its own value, else the column's default; a later row that has
  neither is refused.
\<close>

definition values_rows :: "pydict list \<Rightarrow> pydict list" where
  "values_rows ds = (if ds = [] then [[]] else ds)"

definition has_value :: "pydict \<Rightarrow> column \<Rightarrow> bool" where
  "has_value d c = (map_of d (cname c) \<noteq> None \<or> cdefault c \<noteq> None)"

definition rendered_columns :: "table \<Rightarrow> pydict \<Rightarrow> column list" where
  "rendered_columns t d0 = filter (has_value d0) (tcols t)"

definition bind_value :: "pydict \<Rightarrow> column \<Rightarrow> val option" where
  "bind_value d c = (case map_of d (cname c) of Some v \<Rightarrow> Some v | None \<Rightarrow> cdefault c)"

fun bind_params :: "column list \<Rightarrow> pydict \<Rightarrow> fault + pydict" where
  "bind_params [] d = Inr []"
| "bind_params (c # cs) d =
    (case bind_value d c of
       None \<Rightarrow> Inl CompileError
     | Some v \<Rightarrow> (case bind_params cs d of Inl f \<Rightarrow> Inl f | Inr ps \<Rightarrow> Inr ((cname c, v) # ps)))"

fun bind_all :: "column list \<Rightarrow> pydict list \<Rightarrow> fault + pydict list" where
  "bind_all cs [] = Inr []"
| "bind_all cs (d # ds) =
    (case bind_params cs d of
       Inl f \<Rightarrow> Inl f
     | Inr ps \<Rightarrow> (case bind_all cs ds of Inl f \<Rightarrow> Inl f | Inr pss \<Rightarrow> Inr (ps # pss)))"

definition compile_insert :: "table \<Rightarrow> pydict list \<Rightarrow> fault + pydict list" where
  "compile_insert t ds =
    (case values_rows ds of
       [] \<Rightarrow> Inl CompileError
     | d0 # rest \<Rightarrow>
         if list_ex (\<lambda>k. k \<notin> set (colnames t)) (keys d0) then Inl CompileError
         else bind_all (rendered_columns t d0) (d0 # rest))"

subsection \<open>What the store does with \<open>INSERT ... ON CONFLICT (id) DO UPDATE SET ...\<close>\<close>

text \<open>An integer primary key is created as a serial column: left out of the statement, it is
  drawn from the table's sequence.\<close>

definition serial_pk :: "table \<Rightarrow> bool" where
  "serial_pk t = list_ex (\<lambda>c. cname c = ''id'' \<and> primary_key c \<and>
     (ctype c = TBigInteger \<or> ctype c = TInteger)) (tcols t)"

definition uses_seq :: "table \<Rightarrow> pydict \<Rightarrow> bool" where
  "uses_seq t ps = (map_of ps ''id'' = None \<and> serial_pk t)"

text \<open>The row proposed for insertion (\<open>EXCLUDED\<close>): every column of the table, NULL where the
  statement gives no value.\<close>

definition proposed_row :: "table \<Rightarrow> int \<Rightarrow> pydict \<Rightarrow> pydict" where
  "proposed_row t s ps =
    map (\<lambda>c. (cname c,
          case map_of ps (cname c) of
            Some v \<Rightarrow> v
          | None \<Rightarrow> if cname c = ''id'' \<and> serial_pk t then VInt s else VNone))
      (tcols t)"

text \<open>\<open>set_ = {c.name: c for c in insert_stmt.excluded}\<close>: the columns that take the proposed
  value when the key is already there.\<close>

definition excluded :: "table \<Rightarrow> string list" where
  "excluded t = colnames t"

definition do_update :: "string list \<Rightarrow> pydict \<Rightarrow> pydict \<Rightarrow> pydict" where
  "do_update cols old ex = map (\<lambda>(c, v). (c, if c \<in> set cols then attr ex c else v)) old"

text \<open>
  \<open>ON CONFLICT (id) DO UPDATE\<close>: when no row has the key of the proposed row, the proposed row
  is inserted; when a row has it (the primary key allows one), that row is replaced by its new
  version. Either way the row written is the one a scan returns last.
\<close>

definition on_conflict_do_update :: "string list \<Rightarrow> pydict \<Rightarrow> pydict list \<Rightarrow> pydict list" where
  "on_conflict_do_update cols ex rs =
    (case find (\<lambda>r. attr r ''id'' = attr ex ''id'') rs of
       None \<Rightarrow> rs @ [ex]
     | Some r \<Rightarrow> filter (\<lambda>r. attr r ''id'' \<noteq> attr ex ''id'') rs @ [do_update cols r ex])"

text \<open>
  The rows of one statement, one after the other on a working copy of the table. A NULL key, a
  row the store refuses, and a key the same statement has already written each abort the
  statement. \<open>seen\<close> holds the keys written so far.
\<close>

fun exec_rows ::
  "table \<Rightarrow> (pydict \<Rightarrow> bool) \<Rightarrow> val list \<Rightarrow> tstate \<Rightarrow> pydict list \<Rightarrow> (fault + unit) \<times> tstate"
where
  "exec_rows t rej seen ts [] = (Inr (), ts)"
| "exec_rows t rej seen ts (ps # rest) =
    (let ex = proposed_row t (tseq ts) ps;
         ts1 = (if uses_seq t ps then ts\<lparr>tseq := tseq ts + 1\<rparr> else ts)
     in if attr ex ''id'' = VNone then (Inl NotNullViolation, ts1)
        else if rej ex then (Inl StoreRejected, ts1)
        else if attr ex ''id'' \<in> set seen then (Inl CardinalityViolation, ts1)
        else exec_rows t rej (attr ex ''id'' # seen)
               (ts1\<lparr>trows := on_conflict_do_update (excluded t) ex (trows ts1)\<rparr>) rest)"

text \<open>One statement is atomic: when it aborts, the rows are those from before it (the
  sequence values it drew are not given back).\<close>

definition exec_statement :: "table \<Rightarrow> pydict list \<Rightarrow> db \<Rightarrow> (fault + unit) \<times> db" where
  "exec_statement t pss d =
    (case tabs d (tname t) of
       None \<Rightarrow> (Inl UndefinedTable, d)
     | Some ts \<Rightarrow>
        (case exec_rows t (rejects d (tname t)) [] ts pss of
           (Inl f, ts') \<Rightarrow> (Inl f, d\<lparr>tabs := (tabs d)(tname t \<mapsto> ts\<lparr>tseq := tseq ts'\<rparr>)\<rparr>)
         | (Inr u, ts') \<Rightarrow> (Inr u, d\<lparr>tabs := (tabs d)(tname t \<mapsto> ts')\<rparr>)))"

text \<open>The body shared by every \<open>save_*\<close> and \<open>batch_save_*\<close>: build the statement, acquire a
  connection, execute; any exception is logged and raised again under the operation's name.\<close>

definition upsert :: "string \<Rightarrow> table \<Rightarrow> pydict list \<Rightarrow> db \<Rightarrow> unit outcome" where
  "upsert opn t ds d =
    raise_as opn
      (if \<not> connected d then (Inl ConnectionFault, d)
       else case compile_insert t ds of
              Inl f \<Rightarrow> (Inl f, d)
            | Inr pss \<Rightarrow> exec_statement t pss d)"

definition save_token :: "pydict \<Rightarrow> db \<Rightarrow> unit outcome" where
  "save_token x d = upsert ''Pgsql::save_token'' token [x] d"

definition batch_save_tokens_in_dict :: "pydict list \<Rightarrow> db \<Rightarrow> unit outcome" where
  "batch_save_tokens_in_dict xs d = upsert ''Pgsql::batch_save_tokens_in_dict'' token xs d"

definition save_event :: "pydict \<Rightarrow> db \<Rightarrow> unit outcome" where
  "save_event x d = upsert ''Pgsql::save_event'' event [x] d"

definition save_pending_inscription :: "pydict \<Rightarrow> db \<Rightarrow> unit outcome" where
  "save_pending_inscription x d =
    upsert ''Pgsql::save_pending_inscription'' pending_inscriptions [x] d"

definition save_balance :: "pydict \<Rightarrow> db \<Rightarrow> unit outcome" where
  "save_balance x d = upsert ''Pgsql::save_balance'' balance [x] d"

definition batch_save_balances :: "pydict list \<Rightarrow> db \<Rightarrow> unit outcome" where
  "batch_save_balances xs d = upsert ''Pgsql::batch_save_balances'' balance xs d"

definition batch_save_balances_in_dict :: "pydict list \<Rightarrow> db \<Rightarrow> unit outcome" where
  "batch_save_balances_in_dict xs d =
    upsert ''Pgsql::batch_save_balances_in_dict'' balance xs d"

definition save_otc :: "pydict \<Rightarrow> db \<Rightarrow> unit outcome" where
  "save_otc x d = upsert ''Pgsql::save_otc'' otc [x] d"

definition save_otc_record :: "pydict \<Rightarrow> db \<Rightarrow> unit outcome" where
  "save_otc_record x d = upsert ''Pgsql::save_otc_record'' otc_record [x] d"

section \<open>The query layer\<close>

text \<open>\<open>table.select().where(table.c.col == v)\<close>, executed on an acquired connection. The
  callers pass an \<open>int\<close> or a \<open>str\<close>, never \<open>None\<close>; a NULL in the column matches nothing.\<close>

definition select_where :: "table \<Rightarrow> string \<Rightarrow> val \<Rightarrow> db \<Rightarrow> fault + pydict list" where
  "select_where t col v d =
    (if \<not> connected d then Inl ConnectionFault
     else case tabs d (tname t) of
            None \<Rightarrow> Inl UndefinedTable
          | Some ts \<Rightarrow> Inr (filter (\<lambda>r. attr r col = v) (trows ts)))"

definition fetchone :: "pydict list \<Rightarrow> pydict option" where
  "fetchone rs = (case rs of [] \<Rightarrow> None | r # _ \<Rightarrow> Some r)"

text \<open>\<open>fetchall\<close> gives a list, empty when nothing matched; the option is Python's value that
  the caller tests against \<open>None\<close>.\<close>

definition fetchall :: "pydict list \<Rightarrow> pydict list option" where
  "fetchall rs = Some rs"

text \<open>
  Modelled from the spec: the classes \<open>Token\<close>, \<open>Balance\<close>, \<open>Pending_Inscriptions\<close>, \<open>OTC\<close>,
  \<open>OTC_Record\<close> and \<open>Event\<close> of \<open>src/structure.py\<close>. An instance is its attribute dictionary:
  \<open>vars(x)\<close> is the dictionary, and \<open>Cls(**row)\<close> is the instance with the row's columns.
\<close>

definition Token :: "pydict \<Rightarrow> pydict" where "Token kw = kw"
definition Balance :: "pydict \<Rightarrow> pydict" where "Balance kw = kw"
definition Pending_Inscriptions :: "pydict \<Rightarrow> pydict" where "Pending_Inscriptions kw = kw"
definition OTC :: "pydict \<Rightarrow> pydict" where "OTC kw = kw"
definition OTC_Record :: "pydict \<Rightarrow> pydict" where "OTC_Record kw = kw"
definition Event :: "pydict \<Rightarrow> pydict" where "Event kw = kw"

definition point_lookup ::
  "string \<Rightarrow> table \<Rightarrow> (pydict \<Rightarrow> pydict) \<Rightarrow> val \<Rightarrow> db \<Rightarrow> error + pydict option" where
  "point_lookup opn t cls k d =
    (case select_where t ''id'' k d of
       Inl f \<Rightarrow> Inl (Failed opn f)
     | Inr rs \<Rightarrow> (case fetchone rs of None \<Rightarrow> Inr None | Some r \<Rightarrow> Inr (Some (cls r))))"

definition get_token :: "int \<Rightarrow> db \<Rightarrow> error + pydict option" where
  "get_token token_id d = point_lookup ''Pgsql::get_token'' token Token (VInt token_id) d"

definition get_pending_inscription :: "string \<Rightarrow> db \<Rightarrow> error + pydict option" where
  "get_pending_inscription address d =
    point_lookup ''Pgsql::get_pending_inscription'' pending_inscriptions Pending_Inscriptions
      (VStr address) d"

text \<open>\<open>f"{address}-{token_id}"\<close>: the decimal numeral of an \<open>int\<close>.\<close>

definition digit :: "nat \<Rightarrow> char" where
  "digit n = ''0123456789'' ! n"

fun str_nat :: "nat \<Rightarrow> string" where
  "str_nat n = (if n < 10 then [digit n] else str_nat (n div 10) @ [digit (n mod 10)])"

declare str_nat.simps [simp del]

definition str_int :: "int \<Rightarrow> string" where
  "str_int i = (if i < 0 then CHR ''-'' # str_nat (nat (- i)) else str_nat (nat i))"

definition balance_id :: "string \<Rightarrow> int \<Rightarrow> string" where
  "balance_id address token_id = address @ ''-'' @ str_int token_id"

definition get_balance :: "string \<Rightarrow> int \<Rightarrow> db \<Rightarrow> error + pydict option" where
  "get_balance address token_id d =
    point_lookup ''Pgsql::get_balance'' balance Balance (VStr (balance_id address token_id)) d"

definition get_otc :: "int \<Rightarrow> db \<Rightarrow> error + pydict option" where
  "get_otc otc_id d = point_lookup ''Pgsql::get_otc'' otc OTC (VInt otc_id) d"

definition get_otc_records :: "int \<Rightarrow> db \<Rightarrow> error + pydict list option" where
  "get_otc_records oid d =
    (case select_where otc_record ''oid'' (VInt oid) d of
       Inl f \<Rightarrow> Inl (Failed ''Pgsql::get_otc_records'' f)
     | Inr rs \<Rightarrow>
        (case fetchall rs of
           None \<Rightarrow> Inr None
         | Some otc_records \<Rightarrow> Inr (Some (map OTC_Record otc_records))))"

text \<open>
  \<open>sorted(ret_events, key=lambda x: x.block_index)\<close>. \<open>block_index\<close> is a BigInteger column: read
  back, it is an \<open>int\<close> or \<open>None\<close>. Python's sort is stable; it compares every element of a list
  of two or more, and comparing \<open>None\<close> raises \<open>TypeError\<close>.
\<close>

definition block_index :: "pydict \<Rightarrow> int" where
  "block_index x = (case attr x ''block_index'' of VInt i \<Rightarrow> i | _ \<Rightarrow> 0)"

definition has_block_index :: "pydict \<Rightarrow> bool" where
  "has_block_index x = (case attr x ''block_index'' of VInt i \<Rightarrow> True | _ \<Rightarrow> False)"

definition sorted_by_block_index :: "pydict list \<Rightarrow> fault + pydict list" where
  "sorted_by_block_index xs =
    (if length xs \<le> 1 then Inr xs
     else if list_all has_block_index xs then Inr (sort_key block_index xs)
     else Inl TypeError)"

definition get_events_by_block_height :: "int \<Rightarrow> db \<Rightarrow> error + pydict list option" where
  "get_events_by_block_height block_height d =
    (case select_where event ''block_height'' (VInt block_height) d of
       Inl f \<Rightarrow> Inl (Failed ''Pgsql::get_events_by_block_height'' f)
     | Inr rs \<Rightarrow>
        (case fetchall rs of
           None \<Rightarrow> Inr None
         | Some events \<Rightarrow>
            (case sorted_by_block_index (map Event events) of
               Inl f \<Rightarrow> Inl (Failed ''Pgsql::get_events_by_block_height'' f)
             | Inr sorted_ret_events \<Rightarrow> Inr (Some sorted_ret_events))))"

section \<open>Notions used by the properties\<close>

text \<open>The six \<open>save_*\<close> operations with their tables, and the three batch operations.\<close>

definition save_operations :: "((pydict \<Rightarrow> db \<Rightarrow> unit outcome) \<times> table) list" where
  "save_operations =
    [(save_token, token), (save_event, event),
     (save_pending_inscription, pending_inscriptions), (save_balance, balance),
     (save_otc, otc), (save_otc_record, otc_record)]"

definition batch_operations :: "((pydict list \<Rightarrow> db \<Rightarrow> unit outcome) \<times> table) list" where
  "batch_operations =
    [(batch_save_tokens_in_dict, token), (batch_save_balances, balance),
     (batch_save_balances_in_dict, balance)]"

text \<open>A table of the store follows its declaration: every row has the declared columns and a
  key that is not NULL, and no two rows have the same key (the primary key constraint).\<close>

definition table_ok :: "table \<Rightarrow> tstate \<Rightarrow> bool" where
  "table_ok t ts =
    (list_all (\<lambda>r. map fst r = colnames t \<and> attr r ''id'' \<noteq> VNone) (trows ts) \<and>
     distinct (map (\<lambda>r. attr r ''id'') (trows ts)))"

text \<open>What the six declarations have in common: the column names differ, and the key column
  \<open>id\<close> is there and has no default.\<close>

definition schema_ok :: "table \<Rightarrow> bool" where
  "schema_ok t =
    (distinct (colnames t) \<and> ''id'' \<in> set (colnames t) \<and>
     list_all (\<lambda>c. cname c = ''id'' \<longrightarrow> cdefault c = None) (tcols t))"

text \<open>The row the store holds for a dictionary that gives its key and is saved alone.\<close>

definition stored_row :: "table \<Rightarrow> pydict \<Rightarrow> pydict" where
  "stored_row t x =
    map (\<lambda>c. (cname c, case bind_value x c of Some v \<Rightarrow> v | None \<Rightarrow> VNone)) (tcols t)"


text \<open>The rows of a table with a given key.\<close>

definition rows_with_key :: "val \<Rightarrow> tstate \<Rightarrow> pydict list" where
  "rows_with_key k ts = filter (\<lambda>r. attr r ''id'' = k) (trows ts)"

text \<open>
  The row the store holds for a dictionary \<open>x\<close> written by a statement whose first row is \<open>d0\<close>
  (for a single save, \<open>d0\<close> is \<open>x\<close>): a column of the statement has the value \<open>x\<close> gives, else the
  declared default; a column left out of the statement is NULL (a serial key: the sequence
  value \<open>s\<close>).
\<close>

definition row_of :: "table \<Rightarrow> pydict \<Rightarrow> int \<Rightarrow> pydict \<Rightarrow> pydict" where
  "row_of t d0 s x =
    map (\<lambda>c. (cname c,
          if has_value d0 c then (case bind_value x c of Some v \<Rightarrow> v | None \<Rightarrow> VNone)
          else if cname c = ''id'' \<and> serial_pk t then VInt s else VNone))
      (tcols t)"

text \<open>The four point lookups as calls, with the table, the key and the name of each.\<close>

datatype lookup = Get_token int | Get_pending_inscription string | Get_balance string int
  | Get_otc int

fun run_lookup :: "lookup \<Rightarrow> db \<Rightarrow> error + pydict option" where
  "run_lookup (Get_token token_id) d = get_token token_id d"
| "run_lookup (Get_pending_inscription address) d = get_pending_inscription address d"
| "run_lookup (Get_balance address token_id) d = get_balance address token_id d"
| "run_lookup (Get_otc otc_id) d = get_otc otc_id d"

fun lookup_table :: "lookup \<Rightarrow> table" where
  "lookup_table (Get_token token_id) = token"
| "lookup_table (Get_pending_inscription address) = pending_inscriptions"
| "lookup_table (Get_balance address token_id) = balance"
| "lookup_table (Get_otc otc_id) = otc"

fun lookup_key :: "lookup \<Rightarrow> val" where
  "lookup_key (Get_token token_id) = VInt token_id"
| "lookup_key (Get_pending_inscription address) = VStr address"
| "lookup_key (Get_balance address token_id) = VStr (address @ ''-'' @ str_int token_id)"
| "lookup_key (Get_otc otc_id) = VInt otc_id"

fun lookup_name :: "lookup \<Rightarrow> string" where
  "lookup_name (Get_token token_id) = ''Pgsql::get_token''"
| "lookup_name (Get_pending_inscription address) = ''Pgsql::get_pending_inscription''"
| "lookup_name (Get_balance address token_id) = ''Pgsql::get_balance''"
| "lookup_name (Get_otc otc_id) = ''Pgsql::get_otc''"

text \<open>The save operations as calls, and the state a sequence of them leaves (a call that
  raises leaves the state it reached).\<close>

datatype save_call = Save_token pydict | Batch_save_tokens_in_dict "pydict list"
  | Save_event pydict | Save_pending_inscription pydict | Save_balance pydict
  | Batch_save_balances "pydict list" | Batch_save_balances_in_dict "pydict list"
  | Save_otc pydict | Save_otc_record pydict

fun run_save :: "save_call \<Rightarrow> db \<Rightarrow> unit outcome" where
  "run_save (Save_token x) d = save_token x d"
| "run_save (Batch_save_tokens_in_dict xs) d = batch_save_tokens_in_dict xs d"
| "run_save (Save_event x) d = save_event x d"
| "run_save (Save_pending_inscription x) d = save_pending_inscription x d"
| "run_save (Save_balance x) d = save_balance x d"
| "run_save (Batch_save_balances xs) d = batch_save_balances xs d"
| "run_save (Batch_save_balances_in_dict xs) d = batch_save_balances_in_dict xs d"
| "run_save (Save_otc x) d = save_otc x d"
| "run_save (Save_otc_record x) d = save_otc_record x d"

fun run_saves :: "save_call list \<Rightarrow> db \<Rightarrow> db" where
  "run_saves [] d = d"
| "run_saves (c # cs) d = run_saves cs (snd (run_save c d))"

text \<open>The table a call writes to, and the dictionaries it writes.\<close>

fun call_table :: "save_call \<Rightarrow> table" where
  "call_table (Save_token x) = token"
| "call_table (Batch_save_tokens_in_dict xs) = token"
| "call_table (Save_event x) = event"
| "call_table (Save_pending_inscription x) = pending_inscriptions"
| "call_table (Save_balance x) = balance"
| "call_table (Batch_save_balances xs) = balance"
| "call_table (Batch_save_balances_in_dict xs) = balance"
| "call_table (Save_otc x) = otc"
| "call_table (Save_otc_record x) = otc_record"

fun call_rows :: "save_call \<Rightarrow> pydict list" where
  "call_rows (Save_token x) = [x]"
| "call_rows (Batch_save_tokens_in_dict xs) = xs"
| "call_rows (Save_event x) = [x]"
| "call_rows (Save_pending_inscription x) = [x]"
| "call_rows (Save_balance x) = [x]"
| "call_rows (Batch_save_balances xs) = xs"
| "call_rows (Batch_save_balances_in_dict xs) = xs"
| "call_rows (Save_otc x) = [x]"
| "call_rows (Save_otc_record x) = [x]"

definition written :: "table \<Rightarrow> save_call list \<Rightarrow> pydict list" where
  "written t cs = concat (map call_rows (filter (\<lambda>c. tname (call_table c) = tname t) cs))"

definition wf_rows :: "table \<Rightarrow> pydict list \<Rightarrow> bool" where
  "wf_rows t rs = (\<forall>r\<in>set rs. map fst r = colnames t)"

text \<open>The pair that orders an event on the chain.\<close>

definition block_position :: "pydict \<Rightarrow> val \<times> val" where
  "block_position x = (attr x ''block_height'', attr x ''block_index'')"

subsection \<open>Concrete stores and instances\<close>

definition no_rows :: tstate where
  "no_rows = \<lparr>trows = [], tseq = 1\<rparr>"

text \<open>A store with the six tables, and the type of \<open>event_type\<close>, created and empty.\<close>

definition fresh_db :: db where
  "fresh_db = \<lparr>connected = True, rejects = (\<lambda>n r. False),
     tabs = [''event'' \<mapsto> no_rows, ''pending_inscriptions'' \<mapsto> no_rows, ''token'' \<mapsto> no_rows,
             ''balance'' \<mapsto> no_rows, ''otc'' \<mapsto> no_rows, ''otc_record'' \<mapsto> no_rows],
     idxs = [], types = [''event_type'']\<rparr>"

text \<open>A store with nothing in it.\<close>

definition empty_db :: db where
  "empty_db = \<lparr>connected = True, rejects = (\<lambda>n r. False), tabs = Map.empty, idxs = [],
     types = []\<rparr>"

definition event_at :: "string \<Rightarrow> int \<Rightarrow> int \<Rightarrow> pydict" where
  "event_at i h n =
    [(''id'', VStr i), (''event_type'', VStr ''INSCRIBE''), (''block_height'', VInt h),
     (''block_index'', VInt n), (''timestamp'', VInt 0), (''inscription_id'', VStr ''i0''),
     (''inscription_number'', VInt 0), (''sender'', VStr ''A''), (''receiver'', VStr ''B''),
     (''content'', VJson ''{}''), (''operation'', VStr ''mint''), (''function_id'', VInt 0),
     (''valid'', VBool True), (''error'', VNone)]"

definition balance_of :: "string \<Rightarrow> int \<Rightarrow> int \<Rightarrow> int \<Rightarrow> pydict" where
  "balance_of i b a tr =
    [(''id'', VStr i), (''tick'', VStr ''orcs''), (''tid'', VInt 1),
     (''inscription_id'', VStr ''i0''), (''address'', VStr ''A''), (''balance'', VInt b),
     (''available_balance'', VInt a), (''transferable_balance'', VInt tr),
     (''original_balance'', VInt 0)]"

text \<open>Two events of block 100 saved in either order.\<close>

definition saved_2_then_1 :: db where
  "saved_2_then_1 =
    run_saves [Save_event (event_at ''e2'' 100 2), Save_event (event_at ''e1'' 100 1)] fresh_db"

definition saved_1_then_2 :: db where
  "saved_1_then_2 =
    run_saves [Save_event (event_at ''e1'' 100 1), Save_event (event_at ''e2'' 100 2)] fresh_db"

text \<open>A store that holds one balance row, and the instance that is saved over it.\<close>

definition db_with_balance :: db where
  "db_with_balance = snd (save_balance (balance_of ''A-1'' 100 100 0) fresh_db)"

text \<open>A token as its deploy inscription gives it: the mint and upgrade columns are left to
  their defaults.\<close>

definition token_1 :: pydict where
  "token_1 =
    [(''id'', VInt 1), (''tick'', VStr ''orcs''), (''max'', VInt 21000000), (''lim'', VInt 1000),
     (''dec'', VInt 18), (''ug'', VBool False), (''mp'', VBool False),
     (''deployer'', VStr ''A''), (''deploy_time'', VInt 1700000000),
     (''inscription_id'', VStr ''i0'')]"

text \<open>A batch of three balances, the first of which is already in \<open>db_with_balance\<close> with other
  amounts; and that store forced to refuse the second row of the batch.\<close>

definition three_balances :: "pydict list" where
  "three_balances =
    [balance_of ''A-1'' 10 10 0, balance_of ''A-2'' 20 20 0, balance_of ''A-3'' 30 30 0]"

definition failing_store :: db where
  "failing_store = db_with_balance\<lparr>rejects := (\<lambda>n r. attr r ''id'' = VStr ''A-2'')\<rparr>"

text \<open>A store that holds one event and one token.\<close>

definition db_with_event_and_token :: db where
  "db_with_event_and_token =
    run_saves [Save_event (event_at ''e1'' 100 1), Save_token token_1] fresh_db"

text \<open>An event saved with no \<open>block_index\<close>, and a store that holds it beside a second event
  of the same block.\<close>

definition event_without_index :: "string \<Rightarrow> int \<Rightarrow> pydict" where
  "event_without_index i h =
    [(''id'', VStr i), (''event_type'', VStr ''INSCRIBE''), (''block_height'', VInt h),
     (''block_index'', VNone), (''timestamp'', VInt 0), (''inscription_id'', VStr ''i0''),
     (''inscription_number'', VInt 0), (''sender'', VStr ''A''), (''receiver'', VStr ''B''),
     (''content'', VJson ''{}''), (''operation'', VStr ''mint''), (''function_id'', VInt 0),
     (''valid'', VBool True), (''error'', VNone)]"

definition saved_without_index :: db where
  "saved_without_index =
    run_saves [Save_event (event_without_index ''e1'' 100), Save_event (event_at ''e2'' 100 2)]
      fresh_db"

section \<open>Properties\<close>

subsection \<open>Rows and conflicts\<close>

lemma map_of_filter_cols:
  "distinct (map g xs) \<Longrightarrow> x \<in> set xs \<Longrightarrow>
   map_of (map (\<lambda>c. (g c, f c)) (filter P xs)) (g x) = (if P x then Some (f x) else None)"
proof (induction xs)
  case Nil then show ?case by simp
next
  case (Cons a xs)
  show ?case
  proof (cases "x = a")
    case True
    have "g a \<notin> g ` set xs" using Cons.prems(1) by simp
    then have "map_of (map (\<lambda>c. (g c, f c)) (filter P xs)) (g a) = None"
      by (auto simp: map_of_eq_None_iff image_iff)
    with True show ?thesis by simp
  next
    case False
    then have xin: "x \<in> set xs" using Cons.prems(2) by simp
    have "g x \<noteq> g a" using Cons.prems(1) xin by (auto simp: image_iff)
    with Cons.IH[OF _ xin] Cons.prems(1) show ?thesis by simp
  qed
qed

lemma bind_params_Inr:
  "bind_params cs x = Inr ps \<Longrightarrow>
   ps = map (\<lambda>c. (cname c, case bind_value x c of Some v \<Rightarrow> v | None \<Rightarrow> VNone)) cs"
  by (induction cs arbitrary: ps) (auto split: option.splits sum.splits)

lemma proposed_row_bind:
  assumes "distinct (colnames t)" "bind_params (rendered_columns t d0) x = Inr ps"
  shows "proposed_row t s ps = row_of t d0 s x"
proof -
  have ps: "ps = map (\<lambda>c. (cname c, case bind_value x c of Some v \<Rightarrow> v | None \<Rightarrow> VNone))
      (filter (has_value d0) (tcols t))"
    using bind_params_Inr[OF assms(2)] by (simp add: rendered_columns_def)
  have d: "distinct (map cname (tcols t))" using assms(1) by (simp add: colnames_def)
  show ?thesis
    unfolding proposed_row_def row_of_def ps
    by (rule map_cong[OF refl]) (simp add: map_of_filter_cols[OF d])
qed

lemma attr_of_distinct: "distinct (map fst ex) \<Longrightarrow> (c, v) \<in> set ex \<Longrightarrow> attr ex c = v"
  by (simp add: attr_def)

lemma do_update_full:
  assumes "map fst r = map fst ex" "distinct (map fst ex)" "set (map fst ex) \<subseteq> set cols"
  shows "do_update cols r ex = ex"
proof -
  have "fst ` set r \<subseteq> set cols" using assms(1,3) by (metis set_map)
  then have a: "do_update cols r ex = map (\<lambda>c. (c, attr ex c)) (map fst r)"
    unfolding do_update_def by (induction r) auto
  have "map (\<lambda>c. (c, attr ex c)) (map fst ex) = ex"
    unfolding map_map by (rule map_idI) (auto simp: attr_of_distinct[OF assms(2)])
  with a assms(1) show ?thesis by simp
qed



lemma find_in: "find P xs = Some x \<Longrightarrow> x \<in> set xs \<and> P x"
  by (induction xs) (auto split: if_splits)


lemma filter_none: "\<forall>x\<in>set xs. \<not> P x \<Longrightarrow> filter P xs = []"
  by (induction xs) auto

lemma filter_all: "\<forall>x\<in>set xs. P x \<Longrightarrow> filter P xs = xs"
  by (induction xs) auto



lemma ocdu_wf_cases:
  assumes "map fst ex = cs" "distinct cs" "set cs \<subseteq> set cols"
    "\<forall>r\<in>set rs. map fst r = cs"
  shows "on_conflict_do_update cols ex rs =
    filter (\<lambda>r. attr r ''id'' \<noteq> attr ex ''id'') rs @ [ex]"
proof (cases "find (\<lambda>r. attr r ''id'' = attr ex ''id'') rs")
  case None
  then have "\<forall>r\<in>set rs. attr r ''id'' \<noteq> attr ex ''id''" by (auto simp: find_None_iff)
  then have "filter (\<lambda>r. attr r ''id'' \<noteq> attr ex ''id'') rs = rs" by (rule filter_all)
  with None show ?thesis by (simp add: on_conflict_do_update_def)
next
  case (Some r)
  then have "r \<in> set rs" using find_in by fast
  then have "do_update cols r ex = ex"
    using do_update_full[of r ex cols] assms by simp
  with Some show ?thesis by (simp add: on_conflict_do_update_def)
qed

lemma ocdu_rows_same:
  assumes "map fst ex = cs" "distinct cs" "set cs \<subseteq> set cols"
    "\<forall>r\<in>set rs. map fst r = cs" "distinct (map (\<lambda>r. attr r ''id'') rs)"
  shows "filter (\<lambda>r. attr r ''id'' = attr ex ''id'') (on_conflict_do_update cols ex rs) = [ex]"
  unfolding ocdu_wf_cases[OF assms(1-4)] by (simp add: filter_none)

lemma ocdu_rows_other:
  assumes "map fst ex = cs" "distinct cs" "set cs \<subseteq> set cols"
    "\<forall>r\<in>set rs. map fst r = cs" "k \<noteq> attr ex ''id''"
  shows "filter (\<lambda>r. attr r ''id'' = k) (on_conflict_do_update cols ex rs) =
         filter (\<lambda>r. attr r ''id'' = k) rs"
proof -
  have "(\<lambda>r. attr r ''id'' \<noteq> attr ex ''id'' \<and> attr r ''id'' = k) = (\<lambda>r. attr r ''id'' = k)"
    using assms(5) by auto
  then show ?thesis
    unfolding ocdu_wf_cases[OF assms(1-4)] using assms(5) by simp
qed

lemma ocdu_set:
  assumes "map fst ex = cs" "distinct cs" "set cs \<subseteq> set cols"
    "\<forall>r\<in>set rs. map fst r = cs"
  shows "set (on_conflict_do_update cols ex rs) \<subseteq> insert ex (set rs)"
  unfolding ocdu_wf_cases[OF assms] by auto

lemma ocdu_key_set:
  assumes "map fst ex = cs" "distinct cs" "set cs \<subseteq> set cols"
    "\<forall>r\<in>set rs. map fst r = cs"
  shows "set (map (\<lambda>r. attr r ''id'') (on_conflict_do_update cols ex rs)) =
    insert (attr ex ''id'') (set (map (\<lambda>r. attr r ''id'') rs))"
  unfolding ocdu_wf_cases[OF assms] by auto

lemma ocdu_key_distinct:
  assumes "map fst ex = cs" "distinct cs" "set cs \<subseteq> set cols"
    "\<forall>r\<in>set rs. map fst r = cs" "distinct (map (\<lambda>r. attr r ''id'') rs)"
  shows "distinct (map (\<lambda>r. attr r ''id'') (on_conflict_do_update cols ex rs))"
  unfolding ocdu_wf_cases[OF assms(1-4)] using assms(5) by (auto simp: distinct_map_filter)

lemma ocdu_key_mset:
  assumes "map fst ex = cs" "distinct cs" "set cs \<subseteq> set cols"
    "\<forall>r\<in>set rs. map fst r = cs" "distinct (map (\<lambda>r. attr r ''id'') rs)"
    "attr ex ''id'' \<in> set (map (\<lambda>r. attr r ''id'') rs)"
  shows "mset (map (\<lambda>r. attr r ''id'') (on_conflict_do_update cols ex rs)) =
    mset (map (\<lambda>r. attr r ''id'') rs)"
proof -
  have "set (map (\<lambda>r. attr r ''id'') (on_conflict_do_update cols ex rs)) =
      set (map (\<lambda>r. attr r ''id'') rs)"
    unfolding ocdu_key_set[OF assms(1-4)] using assms(6) by auto
  then show ?thesis
    using ocdu_key_distinct[OF assms(1-5)] assms(5)
    by (simp only: set_eq_iff_mset_eq_distinct)
qed

lemma fst_proposed_row: "map fst (proposed_row t s ps) = colnames t"
  by (simp add: proposed_row_def colnames_def comp_def)

lemma attr_map_cols:
  "distinct (map cname cs) \<Longrightarrow> c \<in> set cs \<Longrightarrow> attr (map (\<lambda>c. (cname c, f c)) cs) (cname c) = f c"
  using map_of_filter_cols[of cname cs c f "\<lambda>_. True"] by (simp add: attr_def)

lemma proposed_row_id_given:
  "map_of ps ''id'' \<noteq> None \<Longrightarrow> proposed_row t s ps = proposed_row t s' ps"
  unfolding proposed_row_def by (rule map_cong[OF refl]) auto

lemma attr_id_proposed_row:
  assumes "schema_ok t" "map_of ps ''id'' = Some v"
  shows "attr (proposed_row t s ps) ''id'' = v"
proof -
  from assms(1) obtain c where c: "c \<in> set (tcols t)" "cname c = ''id''"
    by (auto simp: schema_ok_def colnames_def)
  have d: "distinct (map cname (tcols t))" using assms(1) by (simp add: schema_ok_def colnames_def)
  show ?thesis
    unfolding proposed_row_def using attr_map_cols[OF d c(1)] c(2) assms(2) by simp
qed

lemma table_ok_alt:
  "table_ok t ts \<longleftrightarrow> wf_rows t (trows ts) \<and> (\<forall>r\<in>set (trows ts). attr r ''id'' \<noteq> VNone)
     \<and> distinct (map (\<lambda>r. attr r ''id'') (trows ts))"
  by (auto simp: table_ok_def wf_rows_def list_all_iff)

lemma ocdu_table_ok:
  assumes "schema_ok t" "table_ok t ts" "map fst ex = colnames t" "attr ex ''id'' \<noteq> VNone"
  shows "table_ok t (ts\<lparr>trows := on_conflict_do_update (excluded t) ex (trows ts)\<rparr>)"
proof -
  have d: "distinct (colnames t)" using assms(1) by (simp add: schema_ok_def)
  have wf: "\<forall>r\<in>set (trows ts). map fst r = colnames t"
    using assms(2) by (simp add: table_ok_alt wf_rows_def)
  have sub: "set (colnames t) \<subseteq> set (excluded t)" by (simp add: excluded_def)
  note s = ocdu_set[OF assms(3) d sub wf]
  have "wf_rows t (on_conflict_do_update (excluded t) ex (trows ts))"
    using s wf assms(3) by (auto simp: wf_rows_def)
  moreover have "\<forall>r\<in>set (on_conflict_do_update (excluded t) ex (trows ts)). attr r ''id'' \<noteq> VNone"
    using assms(2,4) s by (auto simp: table_ok_alt)
  moreover have "distinct (map (\<lambda>r. attr r ''id'') (on_conflict_do_update (excluded t) ex (trows ts)))"
    using ocdu_key_distinct[OF assms(3) d sub wf] assms(2) by (simp add: table_ok_alt)
  ultimately show ?thesis by (simp add: table_ok_alt)
qed

lemma exec_rows_table_ok:
  assumes "schema_ok t"
  shows "table_ok t ts \<Longrightarrow> exec_rows t rej seen ts pss = (Inr (), ts') \<Longrightarrow> table_ok t ts'"
proof (induction pss arbitrary: seen ts)
  case Nil then show ?case by simp
next
  case (Cons ps pss)
  let ?ex = "proposed_row t (tseq ts) ps"
  let ?ts1 = "if uses_seq t ps then ts\<lparr>tseq := tseq ts + 1\<rparr> else ts"
  from Cons.prems(2) have nn: "attr ?ex ''id'' \<noteq> VNone"
    and rest: "exec_rows t rej (attr ?ex ''id'' # seen)
        (?ts1\<lparr>trows := on_conflict_do_update (excluded t) ?ex (trows ?ts1)\<rparr>) pss = (Inr (), ts')"
    by (auto simp: Let_def split: if_splits)
  have ok1: "table_ok t ?ts1" using Cons.prems(1) by (simp add: table_ok_def)
  show ?case
    by (rule Cons.IH[OF ocdu_table_ok[OF assms ok1 fst_proposed_row nn] rest])
qed

lemma exec_rows_seen:
  assumes "schema_ok t"
  shows "table_ok t ts \<Longrightarrow> exec_rows t rej seen ts pss = (Inr (), ts') \<Longrightarrow> k \<in> set seen \<Longrightarrow>
    rows_with_key k ts' = rows_with_key k ts"
proof (induction pss arbitrary: seen ts)
  case Nil then show ?case by simp
next
  case (Cons ps pss)
  let ?ex = "proposed_row t (tseq ts) ps"
  let ?ts1 = "if uses_seq t ps then ts\<lparr>tseq := tseq ts + 1\<rparr> else ts"
  let ?ts2 = "?ts1\<lparr>trows := on_conflict_do_update (excluded t) ?ex (trows ?ts1)\<rparr>"
  from Cons.prems(2) have nn: "attr ?ex ''id'' \<noteq> VNone" and ns: "attr ?ex ''id'' \<notin> set seen"
    and rest: "exec_rows t rej (attr ?ex ''id'' # seen) ?ts2 pss = (Inr (), ts')"
    by (auto simp: Let_def split: if_splits)
  have ok1: "table_ok t ?ts1" using Cons.prems(1) by (simp add: table_ok_def)
  have ok2: "table_ok t ?ts2" by (rule ocdu_table_ok[OF assms ok1 fst_proposed_row nn])
  have d: "distinct (colnames t)" using assms(1) by (simp add: schema_ok_def)
  have wf: "\<forall>r\<in>set (trows ?ts1). map fst r = colnames t"
    using ok1 by (simp add: table_ok_alt wf_rows_def)
  have sub: "set (colnames t) \<subseteq> set (excluded t)" by (simp add: excluded_def)
  have kne: "k \<noteq> attr ?ex ''id''" using ns Cons.prems(3) by auto
  have "rows_with_key k ?ts2 = rows_with_key k ?ts1"
    using ocdu_rows_other[OF fst_proposed_row d sub wf kne] by (simp add: rows_with_key_def)
  moreover have "rows_with_key k ts' = rows_with_key k ?ts2"
    by (rule Cons.IH[OF ok2 rest]) (use Cons.prems(3) in simp)
  moreover have "rows_with_key k ?ts1 = rows_with_key k ts" by (simp add: rows_with_key_def)
  ultimately show ?case by simp
qed

lemma exec_rows_applied:
  assumes "schema_ok t"
  shows "table_ok t ts \<Longrightarrow> exec_rows t rej seen ts pss = (Inr (), ts') \<Longrightarrow> ps \<in> set pss \<Longrightarrow>
    map_of ps ''id'' = Some v \<Longrightarrow> rows_with_key v ts' = [proposed_row t 0 ps]"
proof (induction pss arbitrary: seen ts)
  case Nil then show ?case by simp
next
  case (Cons p pss)
  let ?ex = "proposed_row t (tseq ts) p"
  let ?ts1 = "if uses_seq t p then ts\<lparr>tseq := tseq ts + 1\<rparr> else ts"
  let ?ts2 = "?ts1\<lparr>trows := on_conflict_do_update (excluded t) ?ex (trows ?ts1)\<rparr>"
  from Cons.prems(2) have nn: "attr ?ex ''id'' \<noteq> VNone" and ns: "attr ?ex ''id'' \<notin> set seen"
    and rest: "exec_rows t rej (attr ?ex ''id'' # seen) ?ts2 pss = (Inr (), ts')"
    by (auto simp: Let_def split: if_splits)
  have ok1: "table_ok t ?ts1" using Cons.prems(1) by (simp add: table_ok_def)
  have ok2: "table_ok t ?ts2" by (rule ocdu_table_ok[OF assms ok1 fst_proposed_row nn])
  have d: "distinct (colnames t)" using assms(1) by (simp add: schema_ok_def)
  have wf: "\<forall>r\<in>set (trows ?ts1). map fst r = colnames t"
    using ok1 by (simp add: table_ok_alt wf_rows_def)
  have dk: "distinct (map (\<lambda>r. attr r ''id'') (trows ?ts1))" using ok1 by (simp add: table_ok_alt)
  have sub: "set (colnames t) \<subseteq> set (excluded t)" by (simp add: excluded_def)
  show ?case
  proof (cases "ps = p")
    case True
    have ex0: "?ex = proposed_row t 0 ps"
      using proposed_row_id_given[of ps t "tseq ts" 0] Cons.prems(4) True by simp
    have kv: "attr ?ex ''id'' = v" using attr_id_proposed_row[OF assms, of p v] Cons.prems(4) True by simp
    have "rows_with_key v ?ts2 = [?ex]"
      using ocdu_rows_same[OF fst_proposed_row d sub wf dk, of "tseq ts" p] kv
      by (simp add: rows_with_key_def)
    moreover have "rows_with_key v ts' = rows_with_key v ?ts2"
      by (rule exec_rows_seen[OF assms ok2 rest]) (simp add: kv)
    ultimately show ?thesis using ex0 by simp
  next
    case False
    then have "ps \<in> set pss" using Cons.prems(3) by simp
    from Cons.IH[OF ok2 rest this Cons.prems(4)] show ?thesis .
  qed
qed

lemma exec_rows_untouched:
  assumes "schema_ok t"
  shows "table_ok t ts \<Longrightarrow> exec_rows t rej seen ts pss = (Inr (), ts') \<Longrightarrow>
    k \<notin> (\<lambda>ps. attr ps ''id'') ` set pss \<Longrightarrow> \<not> serial_pk t \<Longrightarrow>
    rows_with_key k ts' = rows_with_key k ts"
proof (induction pss arbitrary: seen ts)
  case Nil then show ?case by simp
next
  case (Cons p pss)
  let ?ex = "proposed_row t (tseq ts) p"
  let ?ts1 = "if uses_seq t p then ts\<lparr>tseq := tseq ts + 1\<rparr> else ts"
  let ?ts2 = "?ts1\<lparr>trows := on_conflict_do_update (excluded t) ?ex (trows ?ts1)\<rparr>"
  from Cons.prems(2) have nn: "attr ?ex ''id'' \<noteq> VNone"
    and rest: "exec_rows t rej (attr ?ex ''id'' # seen) ?ts2 pss = (Inr (), ts')"
    by (auto simp: Let_def split: if_splits)
  have ok1: "table_ok t ?ts1" using Cons.prems(1) by (simp add: table_ok_def)
  have ok2: "table_ok t ?ts2" by (rule ocdu_table_ok[OF assms ok1 fst_proposed_row nn])
  have d: "distinct (colnames t)" using assms(1) by (simp add: schema_ok_def)
  have wf: "\<forall>r\<in>set (trows ?ts1). map fst r = colnames t"
    using ok1 by (simp add: table_ok_alt wf_rows_def)
  have sub: "set (colnames t) \<subseteq> set (excluded t)" by (simp add: excluded_def)
  from assms obtain c where c: "c \<in> set (tcols t)" "cname c = ''id''"
    by (auto simp: schema_ok_def colnames_def)
  have dc: "distinct (map cname (tcols t))" using d by (simp add: colnames_def)
  have "attr ?ex ''id'' = attr p ''id''"
    unfolding proposed_row_def using attr_map_cols[OF dc c(1)] c(2) Cons.prems(4)
    by (simp add: attr_def split: option.splits)
  then have kne: "k \<noteq> attr ?ex ''id''" using Cons.prems(3) by auto
  have "rows_with_key k ?ts2 = rows_with_key k ?ts1"
    using ocdu_rows_other[OF fst_proposed_row d sub wf kne] by (simp add: rows_with_key_def)
  moreover have "rows_with_key k ts' = rows_with_key k ?ts2"
    by (rule Cons.IH[OF ok2 rest]) (use Cons.prems(3,4) in auto)
  moreover have "rows_with_key k ?ts1 = rows_with_key k ts" by (simp add: rows_with_key_def)
  ultimately show ?case by simp
qed

subsection \<open>Point lookups\<close>

lemma point_lookup_cases:
  "point_lookup opn t cls k d =
    (if \<not> connected d then Inl (Failed opn ConnectionFault)
     else case tabs d (tname t) of
            None \<Rightarrow> Inl (Failed opn UndefinedTable)
          | Some ts \<Rightarrow> (case rows_with_key k ts of [] \<Rightarrow> Inr None | r # _ \<Rightarrow> Inr (Some (cls r))))"
  by (simp add: point_lookup_def select_where_def fetchone_def rows_with_key_def
      split: option.splits list.splits)

lemma run_lookup_eq:
  "run_lookup q d = point_lookup (lookup_name q) (lookup_table q) id (lookup_key q) d"
  by (cases q)
    (simp_all add: get_token_def get_pending_inscription_def get_balance_def get_otc_def
      balance_id_def point_lookup_def Token_def Balance_def Pending_Inscriptions_def OTC_def
      split: sum.splits option.splits)

text \<open>
  C7. For each of the four point lookups: on a connected store whose table exists, a key with
  no row gives \<open>None\<close> as the returned value (\<open>Inr None\<close>); when no connection can be acquired
  or the query cannot be executed (the table is missing), the call raises (\<open>Inl\<close>) under the
  operation's name, which no returned value equals. The model makes one attempt, as the code
  does: there is no retry and no handler that returns.
\<close>

theorem point_lookup_not_found_or_failure:
  "(connected d \<and> tabs d (tname (lookup_table q)) = Some ts \<and> rows_with_key (lookup_key q) ts = []
      \<longrightarrow> run_lookup q d = Inr None)
   \<and> (\<not> connected d \<or> tabs d (tname (lookup_table q)) = None
      \<longrightarrow> (\<exists>f. run_lookup q d = Inl (Failed (lookup_name q) f)))"
  by (auto simp: run_lookup_eq point_lookup_cases)

theorem point_lookup_not_found_or_failure_witness:
  "connected fresh_db \<and> tabs fresh_db (tname (lookup_table (Get_token 999999))) = Some no_rows
   \<and> rows_with_key (lookup_key (Get_token 999999)) no_rows = []
   \<and> run_lookup (Get_token 999999) fresh_db = Inr None
   \<and> \<not> connected (fresh_db\<lparr>connected := False\<rparr>)
   \<and> (\<exists>f. run_lookup (Get_token 999999) (fresh_db\<lparr>connected := False\<rparr>)
          = Inl (Failed (lookup_name (Get_token 999999)) f))"
proof -
  have a: "connected fresh_db" by (simp add: fresh_db_def)
  have b: "tabs fresh_db (tname (lookup_table (Get_token 999999))) = Some no_rows"
    by (simp add: fresh_db_def token_def)
  have c: "rows_with_key (lookup_key (Get_token 999999)) no_rows = []"
    by (simp add: rows_with_key_def no_rows_def)
  have e: "\<not> connected (fresh_db\<lparr>connected := False\<rparr>)" by simp
  from point_lookup_not_found_or_failure[of fresh_db "Get_token 999999" no_rows] a b c
  have r1: "run_lookup (Get_token 999999) fresh_db = Inr None" by blast
  from point_lookup_not_found_or_failure[of "fresh_db\<lparr>connected := False\<rparr>"
      "Get_token 999999" no_rows] e
  have r2: "\<exists>f. run_lookup (Get_token 999999) (fresh_db\<lparr>connected := False\<rparr>)
          = Inl (Failed (lookup_name (Get_token 999999)) f)" by blast
  from a b c e r1 r2 show ?thesis by blast
qed

subsection \<open>Set lookups\<close>

text \<open>
  C10. On a connected store whose table exists, an order id with no record and a block height
  with no event give the empty list. Whatever the store, neither call returns \<open>None\<close>: the
  branch \<open>return None\<close> after the fetch is never taken.
\<close>

theorem set_lookup_empty_list:
  "(connected d \<and> tabs d (tname otc_record) = Some ts
      \<and> filter (\<lambda>r. attr r ''oid'' = VInt oid) (trows ts) = []
      \<longrightarrow> get_otc_records oid d = Inr (Some []))
   \<and> (connected d \<and> tabs d (tname event) = Some ts'
      \<and> filter (\<lambda>r. attr r ''block_height'' = VInt h) (trows ts') = []
      \<longrightarrow> get_events_by_block_height h d = Inr (Some []))
   \<and> get_otc_records oid d \<noteq> Inr None
   \<and> get_events_by_block_height h d \<noteq> Inr None"
  by (auto simp: get_otc_records_def get_events_by_block_height_def select_where_def
      fetchall_def sorted_by_block_index_def split: sum.splits option.splits)

theorem set_lookup_empty_list_witness:
  "connected fresh_db \<and> tabs fresh_db (tname otc_record) = Some no_rows
   \<and> filter (\<lambda>r. attr r ''oid'' = VInt 5) (trows no_rows) = []
   \<and> get_otc_records 5 fresh_db = Inr (Some [])
   \<and> tabs fresh_db (tname event) = Some no_rows
   \<and> filter (\<lambda>r. attr r ''block_height'' = VInt 100) (trows no_rows) = []
   \<and> get_events_by_block_height 100 fresh_db = Inr (Some [])"
proof -
  have a: "connected fresh_db" by (simp add: fresh_db_def)
  have b: "tabs fresh_db (tname otc_record) = Some no_rows"
    by (simp add: fresh_db_def otc_record_def)
  have c: "filter (\<lambda>r. attr r ''oid'' = VInt 5) (trows no_rows) = []"
    by (simp add: no_rows_def)
  have b': "tabs fresh_db (tname event) = Some no_rows"
    by (simp add: fresh_db_def event_def)
  have c': "filter (\<lambda>r. attr r ''block_height'' = VInt 100) (trows no_rows) = []"
    by (simp add: no_rows_def)
  from set_lookup_empty_list[of fresh_db no_rows 5 no_rows 100] a b c b' c'
  have "get_otc_records 5 fresh_db = Inr (Some [])"
    and "get_events_by_block_height 100 fresh_db = Inr (Some [])" by blast+
  with a b c b' c' show ?thesis by blast
qed

lemma map_Event: "map Event xs = xs"
  by (induction xs) (simp_all add: Event_def)

lemma sorted_by_block_index_ok:
  assumes "list_all has_block_index xs"
  shows "sorted_by_block_index xs = Inr (sort_key block_index xs)"
proof (cases xs)
  case Nil
  then show ?thesis by (simp add: sorted_by_block_index_def)
next
  case (Cons a as)
  show ?thesis
  proof (cases as)
    case Nil
    with Cons show ?thesis by (simp add: sorted_by_block_index_def)
  next
    case (Cons b bs)
    with \<open>xs = a # as\<close> assms show ?thesis by (simp add: sorted_by_block_index_def)
  qed
qed

lemma get_events_ok:
  assumes "connected d" "tabs d (tname event) = Some ts"
    and "list_all has_block_index (filter (\<lambda>r. attr r ''block_height'' = VInt h) (trows ts))"
  shows "get_events_by_block_height h d =
    Inr (Some (sort_key block_index (filter (\<lambda>r. attr r ''block_height'' = VInt h) (trows ts))))"
  using assms(1,2) sorted_by_block_index_ok[OF assms(3)]
  by (simp add: get_events_by_block_height_def select_where_def fetchall_def map_Event)

lemma sort_map_block_index:
  "sort (map block_index zs) = map block_index (sort_key block_index zs)"
  by (rule properties_for_sort) simp_all

text \<open>
  C1, as the code has it. \<open>block_index\<close> is a nullable column and \<open>save_event\<close> stores an event
  that has none. With such an event and a second one in the block, both saved successfully,
  \<open>sorted\<close> compares \<open>None\<close> with an \<open>int\<close> and \<open>get_events_by_block_height\<close> raises: it returns
  no list at all.
\<close>

theorem events_without_block_index_raise:
  "fst (save_event (event_without_index ''e1'' 100) fresh_db) = Inr ()
   \<and> map_option trows (tabs saved_without_index ''event'')
       = Some [event_without_index ''e1'' 100, event_at ''e2'' 100 2]
   \<and> get_events_by_block_height 100 saved_without_index
       = Inl (Failed ''Pgsql::get_events_by_block_height'' TypeError)"
  by code_simp

text \<open>
  C1, amended. On a connected store with its event table, where the events of block \<open>h\<close> carry
  an integer \<open>block_index\<close>, \<open>get_events_by_block_height h\<close> returns exactly the stored events whose
  \<open>block_height\<close> is \<open>h\<close> (as a multiset), in ascending order of \<open>block_index\<close>. A second store
  that holds the same rows in any other order returns the same events, with the same sequence
  of \<open>block_index\<close> values: the order of the saves does not show.
\<close>

theorem events_by_block_height_sorted:
  assumes "connected d" "tabs d (tname event) = Some ts"
    and "connected d2" "tabs d2 (tname event) = Some ts2"
    and "mset (trows ts2) = mset (trows ts)"
    and "list_all has_block_index (filter (\<lambda>r. attr r ''block_height'' = VInt h) (trows ts))"
  shows "\<exists>evs evs2.
    get_events_by_block_height h d = Inr (Some evs) \<and>
    mset evs = mset (filter (\<lambda>r. attr r ''block_height'' = VInt h) (trows ts)) \<and>
    sorted (map block_index evs) \<and>
    get_events_by_block_height h d2 = Inr (Some evs2) \<and>
    mset evs2 = mset evs \<and> map block_index evs2 = map block_index evs"
proof -
  let ?P = "\<lambda>r. attr r ''block_height'' = VInt h"
  let ?xs = "filter ?P (trows ts)" and ?ys = "filter ?P (trows ts2)"
  have m: "mset ?ys = mset ?xs" using assms(5) by (simp only: mset_filter)
  have "set ?ys = set ?xs" using m by (rule mset_eq_setD)
  then have hy: "list_all has_block_index ?ys" using assms(6) by (simp only: list_all_iff)
  note g1 = get_events_ok[OF assms(1,2,6)]
  note g2 = get_events_ok[OF assms(3,4) hy]
  have "mset (map block_index ?ys) = mset (map block_index ?xs)"
    using arg_cong[OF m, of "image_mset block_index"] by simp
  then have e: "sort (map block_index ?ys) = sort (map block_index ?xs)"
    by (intro properties_for_sort) simp_all
  have k: "map block_index (sort_key block_index ?ys) = map block_index (sort_key block_index ?xs)"
    using e unfolding sort_map_block_index .
  have m1: "mset (sort_key block_index ?xs) = mset ?xs" by simp
  have m2: "mset (sort_key block_index ?ys) = mset (sort_key block_index ?xs)"
    using m by simp
  have so: "sorted (map block_index (sort_key block_index ?xs))" by simp
  show ?thesis
    by (intro exI conjI) (rule g1 m1 so g2 m2 k)+
qed

theorem events_by_block_height_sorted_witness:
  "connected saved_2_then_1
   \<and> tabs saved_2_then_1 (tname event)
       = Some \<lparr>trows = [event_at ''e2'' 100 2, event_at ''e1'' 100 1], tseq = 1\<rparr>
   \<and> connected saved_1_then_2
   \<and> tabs saved_1_then_2 (tname event)
       = Some \<lparr>trows = [event_at ''e1'' 100 1, event_at ''e2'' 100 2], tseq = 1\<rparr>
   \<and> list_all has_block_index (filter (\<lambda>r. attr r ''block_height'' = VInt 100)
         [event_at ''e2'' 100 2, event_at ''e1'' 100 1])
   \<and> get_events_by_block_height 100 saved_2_then_1
       = Inr (Some [event_at ''e1'' 100 1, event_at ''e2'' 100 2])
   \<and> (\<exists>evs evs2.
        get_events_by_block_height 100 saved_2_then_1 = Inr (Some evs) \<and>
        sorted (map block_index evs) \<and>
        get_events_by_block_height 100 saved_1_then_2 = Inr (Some evs2) \<and>
        mset evs2 = mset evs \<and> map block_index evs2 = map block_index evs)"
proof -
  let ?ts = "\<lparr>trows = [event_at ''e2'' 100 2, event_at ''e1'' 100 1], tseq = 1\<rparr>"
  let ?ts2 = "\<lparr>trows = [event_at ''e1'' 100 1, event_at ''e2'' 100 2], tseq = 1\<rparr>"
  have a: "connected saved_2_then_1" by code_simp
  have b: "tabs saved_2_then_1 (tname event) = Some ?ts" by code_simp
  have a2: "connected saved_1_then_2" by code_simp
  have b2: "tabs saved_1_then_2 (tname event) = Some ?ts2" by code_simp
  have m: "mset (trows ?ts2) = mset (trows ?ts)" by simp
  have l: "list_all has_block_index (filter (\<lambda>r. attr r ''block_height'' = VInt 100) (trows ?ts))"
    by code_simp
  have v: "get_events_by_block_height 100 saved_2_then_1
       = Inr (Some [event_at ''e1'' 100 1, event_at ''e2'' 100 2])" by code_simp
  from events_by_block_height_sorted[OF a b a2 b2 m l]
  have "\<exists>evs evs2.
        get_events_by_block_height 100 saved_2_then_1 = Inr (Some evs) \<and>
        sorted (map block_index evs) \<and>
        get_events_by_block_height 100 saved_1_then_2 = Inr (Some evs2) \<and>
        mset evs2 = mset evs \<and> map block_index evs2 = map block_index evs" by blast
  with a b a2 b2 l v show ?thesis by simp
qed

subsection \<open>Saving one instance\<close>

lemma bind_params_first:
  "\<forall>c\<in>set cs. has_value x c \<Longrightarrow> \<exists>ps. bind_params cs x = Inr ps"
  by (induction cs) (auto simp: has_value_def bind_value_def split: option.splits)

lemma bind_rendered_self: "\<exists>ps. bind_params (rendered_columns t x) x = Inr ps"
  by (rule bind_params_first) (simp add: rendered_columns_def)

lemma id_column:
  assumes "schema_ok t"
  obtains c where "c \<in> set (tcols t)" "cname c = ''id''"
  using assms by (auto simp: schema_ok_def colnames_def)

lemma row_of_id_given:
  assumes "map_of x ''id'' = Some v"
  shows "row_of t x s x = stored_row t x"
  unfolding row_of_def stored_row_def
  by (rule map_cong[OF refl])
    (use assms in \<open>auto simp: has_value_def bind_value_def split: option.splits\<close>)

lemma attr_id_stored_row:
  assumes "schema_ok t" "map_of x ''id'' = Some v"
  shows "attr (stored_row t x) ''id'' = v"
proof -
  from assms(1) obtain c where c: "c \<in> set (tcols t)" "cname c = ''id''" by (rule id_column)
  have d: "distinct (map cname (tcols t))" using assms(1) by (simp add: schema_ok_def colnames_def)
  show ?thesis
    unfolding stored_row_def using attr_map_cols[OF d c(1)] c(2) assms(2)
    by (simp add: bind_value_def)
qed

lemma fst_stored_row: "map fst (stored_row t x) = colnames t"
  by (simp add: stored_row_def colnames_def comp_def)

lemma map_of_params_id:
  assumes "schema_ok t" "map_of x ''id'' = Some v" "bind_params (rendered_columns t x) x = Inr ps"
  shows "map_of ps ''id'' = Some v"
proof -
  from assms(1) obtain c where c: "c \<in> set (tcols t)" "cname c = ''id''" by (rule id_column)
  have d: "distinct (map cname (tcols t))" using assms(1) by (simp add: schema_ok_def colnames_def)
  have hv: "has_value x c" using assms(2) c(2) by (simp add: has_value_def)
  have ps: "ps = map (\<lambda>c. (cname c, case bind_value x c of Some v \<Rightarrow> v | None \<Rightarrow> VNone))
      (filter (has_value x) (tcols t))"
    using bind_params_Inr[OF assms(3)] by (simp add: rendered_columns_def)
  show ?thesis
    unfolding ps
    using map_of_filter_cols[OF d c(1),
        of "\<lambda>c. case bind_value x c of Some v \<Rightarrow> v | None \<Rightarrow> VNone" "has_value x"]
      hv c(2) assms(2)
    by (simp add: bind_value_def)
qed

lemma db_tabs_idem: "tabs d n = Some ts \<Longrightarrow> d\<lparr>tabs := (tabs d)(n \<mapsto> ts)\<rparr> = d"
  by (simp add: map_upd_triv)

lemma upsert_single:
  assumes "schema_ok t" "map_of x ''id'' = Some v"
  shows "upsert opn t [x] d =
    (if \<not> connected d then (Inl (Failed opn ConnectionFault), d)
     else if list_ex (\<lambda>k. k \<notin> set (colnames t)) (keys x) then (Inl (Failed opn CompileError), d)
     else case tabs d (tname t) of
        None \<Rightarrow> (Inl (Failed opn UndefinedTable), d)
      | Some ts \<Rightarrow>
          if v = VNone then (Inl (Failed opn NotNullViolation), d)
          else if rejects d (tname t) (stored_row t x) then (Inl (Failed opn StoreRejected), d)
          else (Inr (), d\<lparr>tabs := (tabs d)(tname t \<mapsto>
                 ts\<lparr>trows := on_conflict_do_update (excluded t) (stored_row t x) (trows ts)\<rparr>)\<rparr>))"
proof -
  obtain ps where ps: "bind_params (rendered_columns t x) x = Inr ps"
    using bind_rendered_self by blast
  have d: "distinct (colnames t)" using assms(1) by (simp add: schema_ok_def)
  have ex: "proposed_row t s ps = stored_row t x" for s
    using proposed_row_bind[OF d ps] row_of_id_given[OF assms(2)] by simp
  have us: "\<not> uses_seq t ps"
    using map_of_params_id[OF assms ps] by (simp add: uses_seq_def)
  have k: "attr (stored_row t x) ''id'' = v" by (rule attr_id_stored_row[OF assms])
  have ci: "compile_insert t [x] =
      (if list_ex (\<lambda>k. k \<notin> set (colnames t)) (keys x) then Inl CompileError else Inr [ps])"
    using ps by (simp add: compile_insert_def values_rows_def)
  have er: "exec_rows t rej [] ts [ps] =
      (if v = VNone then (Inl NotNullViolation, ts)
       else if rej (stored_row t x) then (Inl StoreRejected, ts)
       else (Inr (), ts\<lparr>trows := on_conflict_do_update (excluded t) (stored_row t x) (trows ts)\<rparr>))"
    for rej ts
    using us k by (simp add: ex Let_def)
  show ?thesis
    by (simp add: upsert_def raise_as_def ci exec_statement_def er db_tabs_idem
        del: exec_rows.simps split: option.splits)
qed

lemma schema_ok_tables:
  "schema_ok token" "schema_ok event" "schema_ok pending_inscriptions" "schema_ok balance"
  "schema_ok otc" "schema_ok otc_record"
  by (simp_all add: schema_ok_def colnames_def token_def event_def pending_inscriptions_def
      balance_def otc_def otc_record_def Column_def Column_pk_def Column_default_def)

lemma save_operations_cases:
  assumes "(save, t) \<in> set save_operations"
  shows "schema_ok t \<and> (\<exists>opn. \<forall>x d. save x d = upsert opn t [x] d)"
  using assms schema_ok_tables
  by (auto simp: save_operations_def save_token_def save_event_def
      save_pending_inscription_def save_balance_def save_otc_def save_otc_record_def)

lemma attr_Some: "attr x k \<noteq> VNone \<Longrightarrow> \<exists>v. map_of x k = Some v \<and> v = attr x k"
  by (auto simp: attr_def split: option.splits)

lemma stored_row_full:
  assumes "distinct (colnames t)" "map fst x = colnames t"
  shows "stored_row t x = x"
proof -
  have dx: "distinct (map fst x)" using assms by simp
  have "\<And>c. c \<in> set (tcols t) \<Longrightarrow>
      (case bind_value x c of Some v \<Rightarrow> v | None \<Rightarrow> VNone) = attr x (cname c)"
  proof -
    fix c assume "c \<in> set (tcols t)"
    then have "cname c \<in> fst ` set x" using assms(2) by (metis colnames_def image_eqI set_map)
    then obtain v where "map_of x (cname c) = Some v"
      by (metis domD dom_map_of_conv_image_fst)
    then show "(case bind_value x c of Some v \<Rightarrow> v | None \<Rightarrow> VNone) = attr x (cname c)"
      by (simp add: bind_value_def attr_def)
  qed
  then have "stored_row t x = map (\<lambda>c. (cname c, attr x (cname c))) (tcols t)"
    unfolding stored_row_def by (intro map_cong[OF refl]) simp
  also have "\<dots> = map (\<lambda>n. (n, attr x n)) (map fst x)"
    using assms(2) by (simp add: colnames_def comp_def)
  also have "\<dots> = x"
    unfolding map_map by (rule map_idI) (auto simp: attr_of_distinct[OF dx])
  finally show ?thesis .
qed

lemma attr_stored_row:
  assumes "distinct (colnames t)" "c \<in> set (tcols t)"
  shows "attr (stored_row t x) (cname c) =
    (case map_of x (cname c) of Some v \<Rightarrow> v
     | None \<Rightarrow> (case cdefault c of Some v \<Rightarrow> v | None \<Rightarrow> VNone))"
proof -
  have d: "distinct (map cname (tcols t))" using assms(1) by (simp add: colnames_def)
  show ?thesis
    unfolding stored_row_def attr_map_cols[OF d assms(2)]
    by (simp add: bind_value_def split: option.splits)
qed

text \<open>
  C2. For each of the six \<open>save_*\<close> operations: when the table holds a row with the key of the
  incoming instance and the save succeeds, the table afterwards holds exactly one row with that
  key, the keys of the table are those it had before, and every column of that row is the value the
  instance gives, else the column's default, else NULL: the row is a function of the instance
  and the declaration alone, so nothing of the previous row is left. For an instance that gives
  every column, the row is the instance.
\<close>

theorem save_overwrites_whole_row:
  assumes "(save, t) \<in> set save_operations"
    and "tabs d (tname t) = Some ts" "table_ok t ts"
    and "old \<in> set (trows ts)" "attr old ''id'' = attr x ''id''"
    and "save x d = (Inr (), d')"
  shows "\<exists>ts'. tabs d' (tname t) = Some ts'
    \<and> rows_with_key (attr x ''id'') ts' = [stored_row t x]
    \<and> mset (map (\<lambda>r. attr r ''id'') (trows ts')) = mset (map (\<lambda>r. attr r ''id'') (trows ts))
    \<and> (\<forall>c\<in>set (tcols t). attr (stored_row t x) (cname c) =
          (case map_of x (cname c) of Some v \<Rightarrow> v
           | None \<Rightarrow> (case cdefault c of Some v \<Rightarrow> v | None \<Rightarrow> VNone)))
    \<and> (map fst x = colnames t \<longrightarrow> stored_row t x = x)"
proof -
  from save_operations_cases[OF assms(1)]
  obtain opn where sk: "schema_ok t" and sv: "\<And>x d. save x d = upsert opn t [x] d"
    by blast
  have dc: "distinct (colnames t)" using sk by (simp add: schema_ok_def)
  have wf: "\<forall>r\<in>set (trows ts). map fst r = colnames t"
    and dk: "distinct (map (\<lambda>r. attr r ''id'') (trows ts))"
    and nn: "\<forall>r\<in>set (trows ts). attr r ''id'' \<noteq> VNone"
    using assms(3) by (simp_all add: table_ok_alt wf_rows_def)
  have "attr x ''id'' \<noteq> VNone" using nn assms(4,5) by metis
  then obtain v where v: "map_of x ''id'' = Some v" "v = attr x ''id''" "v \<noteq> VNone"
    using attr_Some by blast
  let ?ts' = "ts\<lparr>trows := on_conflict_do_update (excluded t) (stored_row t x) (trows ts)\<rparr>"
  have d': "d' = d\<lparr>tabs := (tabs d)(tname t \<mapsto> ?ts')\<rparr>"
    using assms(6) assms(2) v(3) unfolding sv upsert_single[OF sk v(1)]
    by (simp split: if_splits)
  have t': "tabs d' (tname t) = Some ?ts'" by (simp add: d')
  have kx: "attr (stored_row t x) ''id'' = attr x ''id''"
    using attr_id_stored_row[OF sk v(1)] v(2) by simp
  have sub: "set (colnames t) \<subseteq> set (excluded t)" by (simp add: excluded_def)
  have r1: "rows_with_key (attr x ''id'') ?ts' = [stored_row t x]"
    using ocdu_rows_same[OF fst_stored_row dc sub wf dk, of x] kx by (simp add: rows_with_key_def)
  have kin: "attr (stored_row t x) ''id'' \<in> set (map (\<lambda>r. attr r ''id'') (trows ts))"
  proof -
    have "attr old ''id'' \<in> (\<lambda>r. attr r ''id'') ` set (trows ts)"
      using assms(4) by (rule imageI)
    then show ?thesis using assms(5) kx by simp
  qed
  have r2: "mset (map (\<lambda>r. attr r ''id'') (trows ?ts')) = mset (map (\<lambda>r. attr r ''id'') (trows ts))"
    using ocdu_key_mset[OF fst_stored_row dc sub wf dk kin] by simp
  have r3: "\<forall>c\<in>set (tcols t). attr (stored_row t x) (cname c) =
          (case map_of x (cname c) of Some v \<Rightarrow> v
           | None \<Rightarrow> (case cdefault c of Some v \<Rightarrow> v | None \<Rightarrow> VNone))"
    using attr_stored_row[OF dc] by blast
  have r4: "map fst x = colnames t \<longrightarrow> stored_row t x = x"
    using stored_row_full[OF dc] by blast
  from t' r1 r2 r3 r4 show ?thesis by blast
qed

theorem save_overwrites_whole_row_witness:
  "(save_balance, balance) \<in> set save_operations
   \<and> tabs db_with_balance (tname balance)
       = Some \<lparr>trows = [balance_of ''A-1'' 100 100 0], tseq = 1\<rparr>
   \<and> table_ok balance \<lparr>trows = [balance_of ''A-1'' 100 100 0], tseq = 1\<rparr>
   \<and> attr (balance_of ''A-1'' 100 100 0) ''id'' = attr (balance_of ''A-1'' 100 40 60) ''id''
   \<and> save_balance (balance_of ''A-1'' 100 40 60) db_with_balance
       = (Inr (), snd (save_balance (balance_of ''A-1'' 100 40 60) db_with_balance))
   \<and> (\<exists>ts'. tabs (snd (save_balance (balance_of ''A-1'' 100 40 60) db_with_balance))
               (tname balance) = Some ts'
          \<and> rows_with_key (VStr ''A-1'') ts' = [balance_of ''A-1'' 100 40 60])
   \<and> get_balance ''A'' 1 (snd (save_balance (balance_of ''A-1'' 100 40 60) db_with_balance))
       = Inr (Some (balance_of ''A-1'' 100 40 60))"
proof -
  let ?old = "balance_of ''A-1'' 100 100 0" and ?new = "balance_of ''A-1'' 100 40 60"
  let ?ts = "\<lparr>trows = [?old], tseq = 1\<rparr>"
  let ?d' = "snd (save_balance ?new db_with_balance)"
  have a: "(save_balance, balance) \<in> set save_operations" by (simp add: save_operations_def)
  have b: "tabs db_with_balance (tname balance) = Some ?ts" by code_simp
  have c: "table_ok balance ?ts" by code_simp
  have e: "?old \<in> set (trows ?ts)" by simp
  have f: "attr ?old ''id'' = attr ?new ''id''" by code_simp
  have "fst (save_balance ?new db_with_balance) = Inr ()" by code_simp
  then have g: "save_balance ?new db_with_balance = (Inr (), ?d')" by (simp add: prod_eq_iff)
  have k: "attr ?new ''id'' = VStr ''A-1''" by code_simp
  have full: "map fst ?new = colnames balance" by code_simp
  from save_overwrites_whole_row[OF a b c e f g] full k
  have h: "\<exists>ts'. tabs ?d' (tname balance) = Some ts'
          \<and> rows_with_key (VStr ''A-1'') ts' = [?new]" by auto
  have v: "get_balance ''A'' 1 ?d' = Inr (Some ?new)" by code_simp
  from a b c f g h v show ?thesis by blast
qed

subsection \<open>Statements in general\<close>

lemma upsert_cases:
  assumes "upsert opn t ds d = (r, d')"
  shows "(d' = d \<and> (\<exists>e. r = Inl e))
    \<or> (\<exists>ts ts'. tabs d (tname t) = Some ts \<and> d' = d\<lparr>tabs := (tabs d)(tname t \<mapsto> ts')\<rparr>
         \<and> (((\<exists>e. r = Inl e) \<and> trows ts' = trows ts)
            \<or> (r = Inr () \<and> connected d \<and> (\<exists>pss. compile_insert t ds = Inr pss
                 \<and> exec_rows t (rejects d (tname t)) [] ts pss = (Inr (), ts')))))"
proof (cases "connected d")
  case False
  with assms show ?thesis by (auto simp: upsert_def raise_as_def)
next
  case True
  show ?thesis
  proof (cases "compile_insert t ds")
    case (Inl f)
    with assms True show ?thesis by (auto simp: upsert_def raise_as_def)
  next
    case (Inr pss)
    show ?thesis
    proof (cases "tabs d (tname t)")
      case None
      with assms True Inr show ?thesis
        by (auto simp: upsert_def raise_as_def exec_statement_def)
    next
      case (Some ts)
      obtain q ts' where q: "exec_rows t (rejects d (tname t)) [] ts pss = (q, ts')"
        by (cases "exec_rows t (rejects d (tname t)) [] ts pss") auto
      show ?thesis
      proof (cases q)
        case (Inl f)
        with assms True Inr Some q
        have "d' = d\<lparr>tabs := (tabs d)(tname t \<mapsto> ts\<lparr>tseq := tseq ts'\<rparr>)\<rparr>" "r = Inl (Failed opn f)"
          by (auto simp: upsert_def raise_as_def exec_statement_def)
        with Some show ?thesis by auto
      next
        case (Inr u)
        with assms True \<open>compile_insert t ds = Inr pss\<close> Some q
        have "d' = d\<lparr>tabs := (tabs d)(tname t \<mapsto> ts')\<rparr>" "r = Inr ()"
          by (auto simp: upsert_def raise_as_def exec_statement_def)
        with Some True \<open>compile_insert t ds = Inr pss\<close> q Inr show ?thesis by auto
      qed
    qed
  qed
qed

lemma upsert_frame:
  assumes "upsert opn t ds d = (r, d')"
  shows "connected d' = connected d" "rejects d' = rejects d" "idxs d' = idxs d"
    "n \<noteq> tname t \<Longrightarrow> tabs d' n = tabs d n"
    "tabs d' n = None \<longleftrightarrow> tabs d n = None"
  using upsert_cases[OF assms] by (auto split: if_splits)

lemma upsert_fail_rows:
  assumes "upsert opn t ds d = (Inl e, d')"
  shows "map_option trows (tabs d' n) = map_option trows (tabs d n)"
  using upsert_cases[OF assms] by (auto split: if_splits)

lemma upsert_success:
  assumes "upsert opn t ds d = (Inr (), d')"
  shows "connected d \<and> (\<exists>ts pss ts'. tabs d (tname t) = Some ts \<and> compile_insert t ds = Inr pss
    \<and> exec_rows t (rejects d (tname t)) [] ts pss = (Inr (), ts')
    \<and> d' = d\<lparr>tabs := (tabs d)(tname t \<mapsto> ts')\<rparr>)"
  using upsert_cases[OF assms] by auto

lemma bind_all_rows:
  "bind_all cs xs = Inr pss \<Longrightarrow> list_all2 (\<lambda>x ps. bind_params cs x = Inr ps) xs pss"
  by (induction xs arbitrary: pss) (auto split: sum.splits)

lemma compile_insert_rows:
  assumes "compile_insert t ds = Inr pss"
  shows "list_all2 (\<lambda>x ps. bind_params (rendered_columns t (hd (values_rows ds))) x = Inr ps)
    (values_rows ds) pss"
  using assms
  by (cases "values_rows ds")
    (auto simp: compile_insert_def intro: bind_all_rows split: if_splits sum.splits)

lemma attr_id_params:
  assumes "schema_ok t" "bind_params (rendered_columns t d0) x = Inr ps"
    "\<forall>c\<in>set (tcols t). cname c = ''id'' \<longrightarrow> cdefault c = None"
  shows "attr ps ''id'' = attr x ''id'' \<or> attr ps ''id'' = VNone"
proof -
  from assms(1) obtain c where c: "c \<in> set (tcols t)" "cname c = ''id''" by (rule id_column)
  have d: "distinct (map cname (tcols t))" using assms(1) by (simp add: schema_ok_def colnames_def)
  have ps: "ps = map (\<lambda>c. (cname c, case bind_value x c of Some v \<Rightarrow> v | None \<Rightarrow> VNone))
      (filter (has_value d0) (tcols t))"
    using bind_params_Inr[OF assms(2)] by (simp add: rendered_columns_def)
  have "cdefault c = None" using assms(3) c by blast
  then have "(case bind_value x c of Some v \<Rightarrow> v | None \<Rightarrow> VNone) = attr x ''id''"
    using c(2) by (simp add: bind_value_def attr_def split: option.splits)
  then show ?thesis
    unfolding ps attr_def[of "map _ _"]
    using map_of_filter_cols[OF d c(1),
        of "\<lambda>c. case bind_value x c of Some v \<Rightarrow> v | None \<Rightarrow> VNone" "has_value d0"] c(2)
    by (auto split: if_splits)
qed







subsection \<open>What a statement leaves alone\<close>

lemma id_no_default:
  "schema_ok t \<Longrightarrow> \<forall>c\<in>set (tcols t). cname c = ''id'' \<longrightarrow> cdefault c = None"
  by (simp add: schema_ok_def list_all_iff)

lemma attr_id_proposed_nonserial:
  assumes "schema_ok t" "\<not> serial_pk t"
  shows "attr (proposed_row t s ps) ''id'' = attr ps ''id''"
proof -
  from assms(1) obtain c where c: "c \<in> set (tcols t)" "cname c = ''id''" by (rule id_column)
  have dc: "distinct (map cname (tcols t))"
    using assms(1) by (simp add: schema_ok_def colnames_def)
  show ?thesis
    unfolding proposed_row_def using attr_map_cols[OF dc c(1)] c(2) assms(2)
    by (simp add: attr_def split: option.splits)
qed

lemma list_all2_right: "list_all2 P xs ys \<Longrightarrow> y \<in> set ys \<Longrightarrow> \<exists>x\<in>set xs. P x y"
  by (induction rule: list_all2_induct) auto

lemma list_all2_left: "list_all2 P xs ys \<Longrightarrow> x \<in> set xs \<Longrightarrow> \<exists>y\<in>set ys. P x y"
  by (induction rule: list_all2_induct) auto

lemma rows_keys_params:
  assumes "schema_ok t" "compile_insert t ds = Inr pss" "ps \<in> set pss"
  shows "attr ps ''id'' = VNone \<or> attr ps ''id'' \<in> (\<lambda>x. attr x ''id'') ` set ds"
proof -
  from list_all2_right[OF compile_insert_rows[OF assms(2)] assms(3)]
  obtain x where x: "x \<in> set (values_rows ds)"
    "bind_params (rendered_columns t (hd (values_rows ds))) x = Inr ps"
    by blast
  from attr_id_params[OF assms(1) x(2) id_no_default[OF assms(1)]]
  have "attr ps ''id'' = attr x ''id'' \<or> attr ps ''id'' = VNone" .
  moreover have "x \<in> set ds \<or> x = []" using x(1) by (auto simp: values_rows_def split: if_splits)
  moreover have "attr [] ''id'' = VNone" by (simp add: attr_def)
  ultimately show ?thesis by auto
qed

lemma upsert_table_ok:
  assumes "schema_ok t" "tabs d (tname t) = Some ts" "table_ok t ts"
    "upsert opn t ds d = (r, d')"
  shows "\<exists>ts'. tabs d' (tname t) = Some ts' \<and> table_ok t ts'"
  using upsert_cases[OF assms(4)]
proof (elim disjE conjE exE)
  assume "d' = d"
  with assms(2,3) show ?thesis by simp
next
  fix ts0 ts' e
  assume a: "tabs d (tname t) = Some ts0" "d' = d\<lparr>tabs := (tabs d)(tname t \<mapsto> ts')\<rparr>"
    "trows ts' = trows ts0"
  then have "table_ok t ts'" using assms(2,3) by (simp add: table_ok_def)
  with a show ?thesis by simp
next
  fix ts0 ts' pss
  assume a: "tabs d (tname t) = Some ts0" "d' = d\<lparr>tabs := (tabs d)(tname t \<mapsto> ts')\<rparr>"
    "exec_rows t (rejects d (tname t)) [] ts0 pss = (Inr (), ts')"
  have "table_ok t ts'"
    using exec_rows_table_ok[OF assms(1) _ a(3)] a(1) assms(2,3) by simp
  with a show ?thesis by simp
qed

lemma upsert_untouched:
  assumes "schema_ok t" "\<not> serial_pk t" "tabs d (tname t) = Some ts" "table_ok t ts"
    "upsert opn t ds d = (r, d')" "k \<noteq> VNone" "k \<notin> (\<lambda>x. attr x ''id'') ` set ds"
  shows "\<exists>ts'. tabs d' (tname t) = Some ts' \<and> rows_with_key k ts' = rows_with_key k ts"
  using upsert_cases[OF assms(5)]
proof (elim disjE conjE exE)
  assume "d' = d"
  with assms(3) show ?thesis by simp
next
  fix ts0 ts' e
  assume a: "tabs d (tname t) = Some ts0" "d' = d\<lparr>tabs := (tabs d)(tname t \<mapsto> ts')\<rparr>"
    "trows ts' = trows ts0"
  then have "rows_with_key k ts' = rows_with_key k ts" using assms(3) by (simp add: rows_with_key_def)
  with a show ?thesis by simp
next
  fix ts0 ts' pss
  assume a: "tabs d (tname t) = Some ts0" "d' = d\<lparr>tabs := (tabs d)(tname t \<mapsto> ts')\<rparr>"
    "compile_insert t ds = Inr pss"
    "exec_rows t (rejects d (tname t)) [] ts0 pss = (Inr (), ts')"
  have ts0: "ts0 = ts" using a(1) assms(3) by simp
  have "k \<notin> (\<lambda>ps. attr ps ''id'') ` set pss"
    using rows_keys_params[OF assms(1) a(3)] assms(6,7) by auto
  from exec_rows_untouched[OF assms(1) _ a(4) this assms(2)] assms(4) ts0
  have "rows_with_key k ts' = rows_with_key k ts" by simp
  with a show ?thesis by simp
qed

subsection \<open>Sequences of saves\<close>

lemma run_save_upsert: "\<exists>opn. run_save c d = upsert opn (call_table c) (call_rows c) d"
  by (cases c)
    (auto simp: save_token_def batch_save_tokens_in_dict_def save_event_def
      save_pending_inscription_def save_balance_def batch_save_balances_def
      batch_save_balances_in_dict_def save_otc_def save_otc_record_def)

lemma not_serial: "\<not> serial_pk balance" "\<not> serial_pk event"
  by (simp_all add: serial_pk_def balance_def event_def Column_def Column_pk_def)

lemma call_table_balance: "tname (call_table c) = tname balance \<Longrightarrow> call_table c = balance"
  by (cases c)
    (simp_all add: token_def event_def pending_inscriptions_def balance_def otc_def
      otc_record_def)

lemma call_table_event:
  "tname (call_table c) = tname event \<Longrightarrow> \<exists>x. c = Save_event x"
  by (cases c)
    (simp_all add: token_def event_def pending_inscriptions_def balance_def otc_def
      otc_record_def)

lemma written_Cons:
  "written t (c # cs) =
    (if tname (call_table c) = tname t then call_rows c @ written t cs else written t cs)"
  by (simp add: written_def)

lemma run_saves_absent_key:
  assumes "k \<noteq> VNone"
  shows "connected d \<Longrightarrow> tabs d (tname balance) = Some ts \<Longrightarrow> table_ok balance ts \<Longrightarrow>
    rows_with_key k ts = [] \<Longrightarrow> k \<notin> (\<lambda>x. attr x ''id'') ` set (written balance cs) \<Longrightarrow>
    \<exists>ts'. connected (run_saves cs d) \<and> tabs (run_saves cs d) (tname balance) = Some ts'
      \<and> table_ok balance ts' \<and> rows_with_key k ts' = []"
proof (induction cs arbitrary: d ts)
  case Nil
  then show ?case by simp
next
  case (Cons c cs)
  obtain opn where u: "run_save c d = upsert opn (call_table c) (call_rows c) d"
    using run_save_upsert by blast
  obtain r d1 where rd: "upsert opn (call_table c) (call_rows c) d = (r, d1)"
    by (cases "upsert opn (call_table c) (call_rows c) d") auto
  have d1: "snd (run_save c d) = d1" using u rd by simp
  have c1: "connected d1" using upsert_frame(1)[OF rd] Cons.prems(1) by simp
  have "\<exists>ts1. tabs d1 (tname balance) = Some ts1 \<and> table_ok balance ts1
      \<and> rows_with_key k ts1 = []"
  proof (cases "tname (call_table c) = tname balance")
    case True
    then have ct: "call_table c = balance" by (rule call_table_balance)
    have nk: "k \<notin> (\<lambda>x. attr x ''id'') ` set (call_rows c)"
      using Cons.prems(5) True by (auto simp: written_Cons)
    from upsert_table_ok[OF schema_ok_tables(4) Cons.prems(2,3) rd[unfolded ct]]
    obtain ts1 where t1: "tabs d1 (tname balance) = Some ts1" "table_ok balance ts1" by blast
    from upsert_untouched[OF schema_ok_tables(4) not_serial(1) Cons.prems(2,3) rd[unfolded ct]
        assms nk] t1(1) Cons.prems(4)
    have "rows_with_key k ts1 = []" by simp
    with t1 show ?thesis by blast
  next
    case False
    then have "tabs d1 (tname balance) = tabs d (tname balance)"
      using upsert_frame(4)[OF rd, of "tname balance"] by simp
    with Cons.prems(2,3,4) show ?thesis by simp
  qed
  then obtain ts1 where t1: "tabs d1 (tname balance) = Some ts1" "table_ok balance ts1"
    "rows_with_key k ts1 = []" by blast
  have nk': "k \<notin> (\<lambda>x. attr x ''id'') ` set (written balance cs)"
    using Cons.prems(5) by (auto simp: written_Cons split: if_splits)
  from Cons.IH[OF c1 t1 nk'] show ?case by (simp add: d1)
qed

text \<open>
  C4. On a store whose balance table follows its declaration: after a successful
  \<open>save_balance\<close> of an instance whose \<open>id\<close> is the string \<open>"{a}-{t}"\<close>, \<open>get_balance a t\<close>
  returns the stored row of that instance: every attribute the instance gives comes back as
  given, and an instance that gives every column comes back as it is. And when the store has
  no row with the key \<open>"{a}-{t}"\<close> and a sequence of save calls never writes that key,
  \<open>get_balance a t\<close> afterwards returns \<open>None\<close>.
\<close>

theorem balance_composite_key:
  assumes "tabs d (tname balance) = Some ts" "table_ok balance ts"
  shows "(map_of b ''id'' = Some (VStr (balance_id a t)) \<and> save_balance b d = (Inr (), d')
      \<longrightarrow> get_balance a t d' = Inr (Some (stored_row balance b))
        \<and> (\<forall>c\<in>set (tcols balance). \<forall>v. map_of b (cname c) = Some v
              \<longrightarrow> attr (stored_row balance b) (cname c) = v)
        \<and> (map fst b = colnames balance \<longrightarrow> stored_row balance b = b))
    \<and> (connected d \<and> rows_with_key (VStr (balance_id a t)) ts = []
        \<and> VStr (balance_id a t) \<notin> (\<lambda>x. attr x ''id'') ` set (written balance cs)
      \<longrightarrow> get_balance a t (run_saves cs d) = Inr None)"
proof -
  let ?k = "VStr (balance_id a t)"
  note sk = schema_ok_tables(4)
  have dc: "distinct (colnames balance)" using sk by (simp add: schema_ok_def)
  have sub: "set (colnames balance) \<subseteq> set (excluded balance)" by (simp add: excluded_def)
  have p1: "get_balance a t d' = Inr (Some (stored_row balance b))"
    if h: "map_of b ''id'' = Some ?k" "save_balance b d = (Inr (), d')"
  proof -
    let ?ts' = "ts\<lparr>trows := on_conflict_do_update (excluded balance) (stored_row balance b)
        (trows ts)\<rparr>"
    have c: "connected d" and d': "d' = d\<lparr>tabs := (tabs d)(tname balance \<mapsto> ?ts')\<rparr>"
      using h(2) assms(1) unfolding save_balance_def upsert_single[OF sk h(1)]
      by (auto split: if_splits)
    have wf: "\<forall>r\<in>set (trows ts). map fst r = colnames balance"
      and dk: "distinct (map (\<lambda>r. attr r ''id'') (trows ts))"
      using assms(2) by (simp_all add: table_ok_alt wf_rows_def)
    have kx: "attr (stored_row balance b) ''id'' = ?k" by (rule attr_id_stored_row[OF sk h(1)])
    have "rows_with_key ?k ?ts' = [stored_row balance b]"
      using ocdu_rows_same[OF fst_stored_row dc sub wf dk, of b] kx
      by (simp add: rows_with_key_def)
    then show ?thesis
      using c by (simp add: get_balance_def point_lookup_cases d' Balance_def)
  qed
  have p2: "\<forall>c\<in>set (tcols balance). \<forall>v. map_of b (cname c) = Some v
              \<longrightarrow> attr (stored_row balance b) (cname c) = v"
    using attr_stored_row[OF dc] by simp
  have p3: "map fst b = colnames balance \<longrightarrow> stored_row balance b = b"
    using stored_row_full[OF dc] by blast
  have p4: "get_balance a t (run_saves cs d) = Inr None"
    if h: "connected d" "rows_with_key ?k ts = []"
      "?k \<notin> (\<lambda>x. attr x ''id'') ` set (written balance cs)"
  proof -
    from run_saves_absent_key[OF _ h(1) assms(1,2) h(2,3)]
    obtain ts' where "connected (run_saves cs d)" "tabs (run_saves cs d) (tname balance) = Some ts'"
      "rows_with_key ?k ts' = []" by auto
    then show ?thesis by (simp add: get_balance_def point_lookup_cases)
  qed
  from p1 p2 p3 p4 show ?thesis by blast
qed

theorem balance_composite_key_witness:
  "tabs fresh_db (tname balance) = Some no_rows \<and> table_ok balance no_rows
   \<and> map_of (balance_of ''addr1-7'' 100 100 0) ''id'' = Some (VStr (balance_id ''addr1'' 7))
   \<and> save_balance (balance_of ''addr1-7'' 100 100 0) fresh_db
       = (Inr (), snd (save_balance (balance_of ''addr1-7'' 100 100 0) fresh_db))
   \<and> get_balance ''addr1'' 7 (snd (save_balance (balance_of ''addr1-7'' 100 100 0) fresh_db))
       = Inr (Some (balance_of ''addr1-7'' 100 100 0))
   \<and> connected fresh_db \<and> rows_with_key (VStr (balance_id ''addr1'' 8)) no_rows = []
   \<and> VStr (balance_id ''addr1'' 8) \<notin> (\<lambda>x. attr x ''id'') `
         set (written balance [Save_balance (balance_of ''addr1-7'' 100 100 0)])
   \<and> get_balance ''addr1'' 8
         (run_saves [Save_balance (balance_of ''addr1-7'' 100 100 0)] fresh_db) = Inr None"
proof -
  let ?b = "balance_of ''addr1-7'' 100 100 0"
  let ?d' = "snd (save_balance ?b fresh_db)"
  have a: "tabs fresh_db (tname balance) = Some no_rows" by code_simp
  have b: "table_ok balance no_rows" by code_simp
  have c: "map_of ?b ''id'' = Some (VStr (balance_id ''addr1'' 7))" by code_simp
  have "fst (save_balance ?b fresh_db) = Inr ()" by code_simp
  then have e: "save_balance ?b fresh_db = (Inr (), ?d')" by (simp add: prod_eq_iff)
  have f: "map fst ?b = colnames balance" by code_simp
  have g: "connected fresh_db" by code_simp
  have h: "rows_with_key (VStr (balance_id ''addr1'' 8)) no_rows = []" by code_simp
  have i: "VStr (balance_id ''addr1'' 8) \<notin> (\<lambda>x. attr x ''id'') `
         set (written balance [Save_balance ?b])" by code_simp
  from balance_composite_key[OF a b, of ?b "''addr1''" 7 ?d'] c e f
  have r1: "get_balance ''addr1'' 7 ?d' = Inr (Some ?b)" by simp
  from balance_composite_key[OF a b, of ?b "''addr1''" 8 ?d' "[Save_balance ?b]"] g h i
  have r2: "get_balance ''addr1'' 8 (run_saves [Save_balance ?b] fresh_db) = Inr None" by blast
  from a b c e r1 g h i r2 show ?thesis by blast
qed

subsection \<open>Batches\<close>

lemma batch_operations_cases:
  assumes "(bsave, t) \<in> set batch_operations"
  shows "schema_ok t \<and> (\<exists>opn. \<forall>xs d. bsave xs d = upsert opn t xs d)"
  using assms schema_ok_tables
  by (auto simp: batch_operations_def batch_save_tokens_in_dict_def batch_save_balances_def
      batch_save_balances_in_dict_def)

lemma map_of_params_id_batch:
  assumes "schema_ok t" "map_of d0 ''id'' \<noteq> None" "bind_params (rendered_columns t d0) x = Inr ps"
  shows "map_of ps ''id'' = Some (attr x ''id'')"
proof -
  from assms(1) obtain c where c: "c \<in> set (tcols t)" "cname c = ''id''" by (rule id_column)
  have d: "distinct (map cname (tcols t))" using assms(1) by (simp add: schema_ok_def colnames_def)
  have hv: "has_value d0 c" using assms(2) c(2) by (simp add: has_value_def)
  have nd: "cdefault c = None" using id_no_default[OF assms(1)] c by blast
  have ps: "ps = map (\<lambda>c. (cname c, case bind_value x c of Some v \<Rightarrow> v | None \<Rightarrow> VNone))
      (filter (has_value d0) (tcols t))"
    using bind_params_Inr[OF assms(3)] by (simp add: rendered_columns_def)
  have "(case bind_value x c of Some v \<Rightarrow> v | None \<Rightarrow> VNone) = attr x ''id''"
    using nd c(2) by (simp add: bind_value_def attr_def split: option.splits)
  then show ?thesis
    unfolding ps
    using map_of_filter_cols[OF d c(1),
        of "\<lambda>c. case bind_value x c of Some v \<Rightarrow> v | None \<Rightarrow> VNone" "has_value d0"]
      hv c(2)
    by simp
qed

text \<open>
  C6. For each of the three \<open>batch_save_*\<close> operations, which send the whole batch as one
  statement: when the call raises, every table has the rows it had before the call; when it
  succeeds on a table that follows its declaration, with a batch whose first row gives the key,
  the table afterwards holds, for every row of the batch, exactly one row with its key, and
  that row is the one built from it.
\<close>

theorem batch_save_all_or_nothing:
  assumes "(bsave, t) \<in> set batch_operations"
  shows "(bsave xs d = (Inl e, d')
      \<longrightarrow> (\<forall>n. map_option trows (tabs d' n) = map_option trows (tabs d n)))
    \<and> (bsave xs d = (Inr (), d') \<and> tabs d (tname t) = Some ts \<and> table_ok t ts
        \<and> map_of (hd xs) ''id'' \<noteq> None
      \<longrightarrow> (\<exists>ts'. tabs d' (tname t) = Some ts' \<and> table_ok t ts'
            \<and> (\<forall>x\<in>set xs. rows_with_key (attr x ''id'') ts' = [row_of t (hd xs) 0 x])))"
proof -
  from batch_operations_cases[OF assms]
  obtain opn where sk: "schema_ok t" and sv: "\<And>xs d. bsave xs d = upsert opn t xs d"
    by blast
  have dc: "distinct (colnames t)" using sk by (simp add: schema_ok_def)
  have p1: "\<forall>n. map_option trows (tabs d' n) = map_option trows (tabs d n)"
    if "bsave xs d = (Inl e, d')"
    using upsert_fail_rows[OF that[unfolded sv]] by blast
  have p2: "\<exists>ts'. tabs d' (tname t) = Some ts' \<and> table_ok t ts'
            \<and> (\<forall>x\<in>set xs. rows_with_key (attr x ''id'') ts' = [row_of t (hd xs) 0 x])"
    if h: "bsave xs d = (Inr (), d')" "tabs d (tname t) = Some ts" "table_ok t ts"
      "map_of (hd xs) ''id'' \<noteq> None"
  proof -
    from upsert_success[OF h(1)[unfolded sv]] h(2)
    obtain pss ts' where c: "compile_insert t xs = Inr pss"
      "exec_rows t (rejects d (tname t)) [] ts pss = (Inr (), ts')"
      "d' = d\<lparr>tabs := (tabs d)(tname t \<mapsto> ts')\<rparr>" by auto
    have t1: "tabs d' (tname t) = Some ts'" by (simp add: c(3))
    have t2: "table_ok t ts'" by (rule exec_rows_table_ok[OF sk h(3) c(2)])
    have t3: "rows_with_key (attr x ''id'') ts' = [row_of t (hd xs) 0 x]" if x: "x \<in> set xs" for x
    proof -
      have ne: "values_rows xs = xs" using x by (auto simp: values_rows_def)
      from list_all2_left[OF compile_insert_rows[OF c(1)], unfolded ne, OF x]
      obtain ps where ps: "ps \<in> set pss" "bind_params (rendered_columns t (hd xs)) x = Inr ps"
        by blast
      have i: "map_of ps ''id'' = Some (attr x ''id'')"
        by (rule map_of_params_id_batch[OF sk h(4) ps(2)])
      from exec_rows_applied[OF sk h(3) c(2) ps(1) i]
      show ?thesis by (simp add: proposed_row_bind[OF dc ps(2)])
    qed
    from t1 t2 t3 show ?thesis by blast
  qed
  from p1 p2 show ?thesis by blast
qed

theorem batch_save_all_or_nothing_witness:
  "(batch_save_balances, balance) \<in> set batch_operations
   \<and> batch_save_balances three_balances failing_store
       = (Inl (Failed ''Pgsql::batch_save_balances'' StoreRejected),
          snd (batch_save_balances three_balances failing_store))
   \<and> map_option trows (tabs (snd (batch_save_balances three_balances failing_store)) ''balance'')
       = Some [balance_of ''A-1'' 100 100 0]
   \<and> batch_save_balances three_balances db_with_balance
       = (Inr (), snd (batch_save_balances three_balances db_with_balance))
   \<and> tabs db_with_balance (tname balance)
       = Some \<lparr>trows = [balance_of ''A-1'' 100 100 0], tseq = 1\<rparr>
   \<and> table_ok balance \<lparr>trows = [balance_of ''A-1'' 100 100 0], tseq = 1\<rparr>
   \<and> map_of (hd three_balances) ''id'' \<noteq> None
   \<and> (\<exists>ts'. tabs (snd (batch_save_balances three_balances db_with_balance)) (tname balance)
          = Some ts'
        \<and> rows_with_key (VStr ''A-1'') ts' = [balance_of ''A-1'' 10 10 0]
        \<and> rows_with_key (VStr ''A-2'') ts' = [balance_of ''A-2'' 20 20 0]
        \<and> rows_with_key (VStr ''A-3'') ts' = [balance_of ''A-3'' 30 30 0])"
proof -
  let ?ts = "\<lparr>trows = [balance_of ''A-1'' 100 100 0], tseq = 1\<rparr>"
  let ?e = "Failed ''Pgsql::batch_save_balances'' StoreRejected"
  let ?df = "snd (batch_save_balances three_balances failing_store)"
  let ?ds = "snd (batch_save_balances three_balances db_with_balance)"
  have a: "(batch_save_balances, balance) \<in> set batch_operations"
    by (simp add: batch_operations_def)
  have "fst (batch_save_balances three_balances failing_store) = Inl ?e" by code_simp
  then have b: "batch_save_balances three_balances failing_store = (Inl ?e, ?df)"
    by (simp add: prod_eq_iff)
  have c: "map_option trows (tabs failing_store ''balance'') = Some [balance_of ''A-1'' 100 100 0]"
    by code_simp
  from batch_save_all_or_nothing[OF a, of three_balances failing_store ?e ?df] b
  have "map_option trows (tabs ?df ''balance'') = map_option trows (tabs failing_store ''balance'')"
    by blast
  with c have r1: "map_option trows (tabs ?df ''balance'') = Some [balance_of ''A-1'' 100 100 0]"
    by simp
  have "fst (batch_save_balances three_balances db_with_balance) = Inr ()" by code_simp
  then have f: "batch_save_balances three_balances db_with_balance = (Inr (), ?ds)"
    by (simp add: prod_eq_iff)
  have g: "tabs db_with_balance (tname balance) = Some ?ts" by code_simp
  have h: "table_ok balance ?ts" by code_simp
  have i: "map_of (hd three_balances) ''id'' \<noteq> None" by code_simp
  have k: "attr (balance_of ''A-1'' 10 10 0) ''id'' = VStr ''A-1''"
    "attr (balance_of ''A-2'' 20 20 0) ''id'' = VStr ''A-2''"
    "attr (balance_of ''A-3'' 30 30 0) ''id'' = VStr ''A-3''" by code_simp+
  have l: "row_of balance (hd three_balances) 0 (balance_of ''A-1'' 10 10 0)
        = balance_of ''A-1'' 10 10 0"
    "row_of balance (hd three_balances) 0 (balance_of ''A-2'' 20 20 0)
        = balance_of ''A-2'' 20 20 0"
    "row_of balance (hd three_balances) 0 (balance_of ''A-3'' 30 30 0)
        = balance_of ''A-3'' 30 30 0" by code_simp+
  from batch_save_all_or_nothing[OF a, of three_balances db_with_balance _ ?ds ?ts] f g h i
  obtain ts' where t: "tabs ?ds (tname balance) = Some ts'"
    "\<forall>x\<in>set three_balances. rows_with_key (attr x ''id'') ts'
        = [row_of balance (hd three_balances) 0 x]" by blast
  have "rows_with_key (VStr ''A-1'') ts' = [balance_of ''A-1'' 10 10 0]"
    "rows_with_key (VStr ''A-2'') ts' = [balance_of ''A-2'' 20 20 0]"
    "rows_with_key (VStr ''A-3'') ts' = [balance_of ''A-3'' 30 30 0]"
    using t(2) k l by (simp_all add: three_balances_def)
  with t(1) have r2: "\<exists>ts'. tabs ?ds (tname balance) = Some ts'
        \<and> rows_with_key (VStr ''A-1'') ts' = [balance_of ''A-1'' 10 10 0]
        \<and> rows_with_key (VStr ''A-2'') ts' = [balance_of ''A-2'' 20 20 0]
        \<and> rows_with_key (VStr ''A-3'') ts' = [balance_of ''A-3'' 30 30 0]" by blast
  from a b r1 f g h i r2 show ?thesis by blast
qed

subsection \<open>The events that are stored\<close>

lemma upsert_no_id_fails:
  assumes "schema_ok t" "\<not> serial_pk t" "map_of x ''id'' = None"
  shows "fst (upsert opn t [x] d) \<noteq> Inr ()"
proof
  assume a: "fst (upsert opn t [x] d) = Inr ()"
  then have "upsert opn t [x] d = (Inr (), snd (upsert opn t [x] d))" by (simp add: prod_eq_iff)
  from upsert_success[OF this]
  obtain ts pss ts' where c: "compile_insert t [x] = Inr pss"
    "exec_rows t (rejects d (tname t)) [] ts pss = (Inr (), ts')" by blast
  from compile_insert_rows[OF c(1)]
  obtain ps where ps: "pss = [ps]" "bind_params (rendered_columns t x) x = Inr ps"
    by (auto simp: values_rows_def list_all2_Cons1)
  from attr_id_params[OF assms(1) ps(2) id_no_default[OF assms(1)]] assms(3)
  have "attr ps ''id'' = VNone" by (auto simp: attr_def)
  then have "attr (proposed_row t (tseq ts) ps) ''id'' = VNone"
    using attr_id_proposed_nonserial[OF assms(1,2)] by simp
  with c(2) ps(1) show False by (simp add: Let_def)
qed

lemma upsert_single_rows:
  assumes "schema_ok t" "\<not> serial_pk t" "tabs d (tname t) = Some ts" "table_ok t ts"
    "upsert opn t [x] d = (r, d')"
  shows "\<exists>ts'. tabs d' (tname t) = Some ts' \<and> table_ok t ts'
    \<and> set (trows ts') \<subseteq> insert (stored_row t x) (set (trows ts))"
proof (cases r)
  case (Inl e)
  from upsert_fail_rows[OF assms(5)[unfolded Inl], of "tname t"] assms(3)
  obtain ts' where t: "tabs d' (tname t) = Some ts'" "trows ts' = trows ts" by auto
  then have "table_ok t ts'" using assms(4) by (simp add: table_ok_def)
  with t show ?thesis by auto
next
  case (Inr u)
  then have ok: "fst (upsert opn t [x] d) = Inr ()" using assms(5) by simp
  then obtain k where k: "map_of x ''id'' = Some k"
    using upsert_no_id_fails[OF assms(1,2), of x opn d] by (cases "map_of x ''id''") auto
  let ?ts' = "ts\<lparr>trows := on_conflict_do_update (excluded t) (stored_row t x) (trows ts)\<rparr>"
  have kn: "k \<noteq> VNone" and d': "d' = d\<lparr>tabs := (tabs d)(tname t \<mapsto> ?ts')\<rparr>"
    using assms(5) Inr assms(3) unfolding upsert_single[OF assms(1) k]
    by (auto split: if_splits)
  have dc: "distinct (colnames t)" using assms(1) by (simp add: schema_ok_def)
  have sub: "set (colnames t) \<subseteq> set (excluded t)" by (simp add: excluded_def)
  have wf: "\<forall>r\<in>set (trows ts). map fst r = colnames t"
    using assms(4) by (simp add: table_ok_alt wf_rows_def)
  have kx: "attr (stored_row t x) ''id'' = k" by (rule attr_id_stored_row[OF assms(1) k])
  have t2: "table_ok t ?ts'"
    by (rule ocdu_table_ok[OF assms(1,4) fst_stored_row]) (simp add: kx kn)
  have t3: "set (trows ?ts') \<subseteq> insert (stored_row t x) (set (trows ts))"
    using ocdu_set[OF fst_stored_row dc sub wf, of x] by simp
  from t2 t3 show ?thesis by (simp add: d')
qed

lemma run_saves_event_rows:
  "tabs d (tname event) = Some ts \<Longrightarrow> table_ok event ts \<Longrightarrow>
   set (trows ts) \<subseteq> stored_row event ` W \<Longrightarrow>
   \<exists>ts'. tabs (run_saves cs d) (tname event) = Some ts' \<and> table_ok event ts'
     \<and> set (trows ts') \<subseteq> stored_row event ` (W \<union> set (written event cs))"
proof (induction cs arbitrary: d ts W)
  case Nil
  then show ?case by (simp add: written_def)
next
  case (Cons c cs)
  obtain opn where u: "run_save c d = upsert opn (call_table c) (call_rows c) d"
    using run_save_upsert by blast
  obtain r d1 where rd: "upsert opn (call_table c) (call_rows c) d = (r, d1)"
    by (cases "upsert opn (call_table c) (call_rows c) d") auto
  have d1: "snd (run_save c d) = d1" using u rd by simp
  let ?W1 = "W \<union> (if tname (call_table c) = tname event then set (call_rows c) else {})"
  have "\<exists>ts1. tabs d1 (tname event) = Some ts1 \<and> table_ok event ts1
      \<and> set (trows ts1) \<subseteq> stored_row event ` ?W1"
  proof (cases "tname (call_table c) = tname event")
    case True
    then obtain x where cx: "c = Save_event x" using call_table_event by blast
    from upsert_single_rows[OF schema_ok_tables(2) not_serial(2) Cons.prems(1,2), of opn x r d1]
      rd cx
    obtain ts1 where t1: "tabs d1 (tname event) = Some ts1" "table_ok event ts1"
      "set (trows ts1) \<subseteq> insert (stored_row event x) (set (trows ts))" by auto
    have "set (trows ts1) \<subseteq> stored_row event ` ?W1"
      using t1(3) Cons.prems(3) True cx by auto
    with t1 show ?thesis by blast
  next
    case False
    then have "tabs d1 (tname event) = tabs d (tname event)"
      using upsert_frame(4)[OF rd, of "tname event"] by simp
    with Cons.prems False show ?thesis by auto
  qed
  then obtain ts1 where t1: "tabs d1 (tname event) = Some ts1" "table_ok event ts1"
    "set (trows ts1) \<subseteq> stored_row event ` ?W1" by blast
  have W: "?W1 \<union> set (written event cs) = W \<union> set (written event (c # cs))"
    by (auto simp: written_Cons)
  from Cons.IH[OF t1] show ?case by (simp add: d1 W)
qed

lemma distinct_map_transfer:
  assumes "distinct (map g xs)" "\<forall>x\<in>set xs. \<forall>y\<in>set xs. f x = f y \<longrightarrow> g x = g y"
  shows "distinct (map f xs)"
proof -
  from assms(1) have d: "distinct xs" and i: "inj_on g (set xs)" by (simp_all add: distinct_map)
  have "inj_on f (set xs)"
  proof (rule inj_onI)
    fix x y assume h: "x \<in> set xs" "y \<in> set xs" "f x = f y"
    then have "g x = g y" using assms(2) by blast
    with i h show "x = y" by (simp add: inj_on_def)
  qed
  with d show ?thesis by (simp add: distinct_map)
qed

lemma attr_event_stored:
  "attr (stored_row event x) ''id'' = attr x ''id''"
  "block_position (stored_row event x) = block_position x"
proof -
  have dc: "distinct (colnames event)" using schema_ok_tables(2) by (simp add: schema_ok_def)
  have nd: "\<forall>c\<in>set (tcols event). cdefault c = None"
    by (simp add: event_def Column_def Column_pk_def)
  have a: "attr (stored_row event x) (cname c) = attr x (cname c)" if "c \<in> set (tcols event)" for c
    using attr_stored_row[OF dc that, of x] nd that by (simp add: attr_def split: option.splits)
  have m: "Column_pk ''id'' (TString 255) \<in> set (tcols event)"
    "Column ''block_height'' TBigInteger \<in> set (tcols event)"
    "Column ''block_index'' TBigInteger \<in> set (tcols event)"
    by (simp_all add: event_def)
  show "attr (stored_row event x) ''id'' = attr x ''id''"
    using a[OF m(1)] by (simp add: Column_pk_def)
  show "block_position (stored_row event x) = block_position x"
    using a[OF m(2)] a[OF m(3)] by (simp add: block_position_def Column_def)
qed

text \<open>
  C9, as the code has it. The event table declares one constraint, its primary key \<open>id\<close>: two
  events with different ids and the same \<open>(block_height, block_index)\<close> are both stored.
\<close>

theorem two_events_share_block_position:
  "map_option trows (tabs (run_saves
       [Save_event (event_at ''e1'' 100 1), Save_event (event_at ''e2'' 100 1)] fresh_db) ''event'')
     = Some [event_at ''e1'' 100 1, event_at ''e2'' 100 1]
   \<and> \<not> distinct (map block_position [event_at ''e1'' 100 1, event_at ''e2'' 100 1])
   \<and> block_position (event_at ''e1'' 100 1) = (VInt 100, VInt 1)
   \<and> block_position (event_at ''e2'' 100 1) = (VInt 100, VInt 1)"
  by code_simp

text \<open>
  C9, amended. In every state that save calls reach from a store whose event table is empty, no
  two stored events have the same \<open>id\<close>; and they have pairwise different
  \<open>(block_height, block_index)\<close> pairs whenever the callers never wrote two events with
  different ids and the same pair.
\<close>

theorem event_keys_unique:
  assumes "tabs d (tname event) = Some ts" "trows ts = []"
  shows "\<exists>ts'. tabs (run_saves cs d) (tname event) = Some ts'
    \<and> distinct (map (\<lambda>r. attr r ''id'') (trows ts'))
    \<and> ((\<forall>x\<in>set (written event cs). \<forall>y\<in>set (written event cs).
           attr x ''id'' \<noteq> attr y ''id'' \<longrightarrow> block_position x \<noteq> block_position y)
        \<longrightarrow> distinct (map block_position (trows ts')))"
proof -
  have ok: "table_ok event ts" using assms(2) by (simp add: table_ok_def)
  have "set (trows ts) \<subseteq> stored_row event ` {}" using assms(2) by simp
  from run_saves_event_rows[OF assms(1) ok this, of cs]
  obtain ts' where t: "tabs (run_saves cs d) (tname event) = Some ts'" "table_ok event ts'"
    "set (trows ts') \<subseteq> stored_row event ` set (written event cs)" by auto
  have dk: "distinct (map (\<lambda>r. attr r ''id'') (trows ts'))" using t(2) by (simp add: table_ok_def)
  have dp: "distinct (map block_position (trows ts'))"
    if h: "\<forall>x\<in>set (written event cs). \<forall>y\<in>set (written event cs).
           attr x ''id'' \<noteq> attr y ''id'' \<longrightarrow> block_position x \<noteq> block_position y"
  proof (rule distinct_map_transfer[OF dk], intro ballI impI)
    fix r r' assume r: "r \<in> set (trows ts')" "r' \<in> set (trows ts')"
      "block_position r = block_position r'"
    from r(1,2) t(3) obtain x y where xy: "x \<in> set (written event cs)" "r = stored_row event x"
      "y \<in> set (written event cs)" "r' = stored_row event y" by blast
    have "block_position x = block_position y" using r(3) xy by (simp add: attr_event_stored)
    then have "attr x ''id'' = attr y ''id''" using h xy(1,3) by blast
    then show "attr r ''id'' = attr r' ''id''" using xy by (simp add: attr_event_stored)
  qed
  from t(1) dk dp show ?thesis by blast
qed

theorem event_keys_unique_witness:
  "tabs fresh_db (tname event) = Some no_rows \<and> trows no_rows = []
   \<and> (\<exists>ts'. tabs saved_2_then_1 (tname event) = Some ts'
        \<and> distinct (map (\<lambda>r. attr r ''id'') (trows ts'))
        \<and> distinct (map block_position (trows ts')))"
proof -
  let ?cs = "[Save_event (event_at ''e2'' 100 2), Save_event (event_at ''e1'' 100 1)]"
  have a: "tabs fresh_db (tname event) = Some no_rows" by code_simp
  have b: "trows no_rows = []" by code_simp
  have c: "\<forall>x\<in>set (written event ?cs). \<forall>y\<in>set (written event ?cs).
       attr x ''id'' \<noteq> attr y ''id'' \<longrightarrow> block_position x \<noteq> block_position y"
    by code_simp
  from event_keys_unique[OF a b, of ?cs] c
  have "\<exists>ts'. tabs (run_saves ?cs fresh_db) (tname event) = Some ts'
        \<and> distinct (map (\<lambda>r. attr r ''id'') (trows ts'))
        \<and> distinct (map block_position (trows ts'))" by blast
  with a b show ?thesis by (simp add: saved_2_then_1_def)
qed

subsection \<open>The destructive reset\<close>

lemma execute_all_frame:
  assumes "\<forall>s\<in>set ss. \<forall>d d'. s d = Inr d' \<longrightarrow> tabs d' n = tabs d n"
  shows "tabs (snd (execute_all ss d)) n = tabs d n"
  using assms
proof (induction ss arbitrary: d)
  case Nil
  then show ?case by simp
next
  case (Cons s ss)
  show ?case
  proof (cases "s d")
    case (Inl f)
    then show ?thesis by simp
  next
    case (Inr d')
    have "tabs d' n = tabs d n" using Cons.prems Inr by simp
    moreover have "tabs (snd (execute_all ss d')) n = tabs d' n"
      by (rule Cons.IH) (use Cons.prems in simp)
    ultimately show ?thesis using Inr by simp
  qed
qed

lemma snd_raise_as: "snd (raise_as opn r) = snd r"
  by (cases r) (auto simp: raise_as_def split: sum.splits)

lemma clear_table_frame:
  assumes "n \<noteq> table_name" "n \<noteq> tname t"
  shows "tabs (snd (clear_table t table_name index_list d)) n = tabs d n"
proof (cases "connected d")
  case False
  then show ?thesis by (simp add: clear_table_def snd_raise_as)
next
  case True
  let ?ss = "[drop_table table_name, CreateTable t] @ map CreateIndex index_list"
  have "\<forall>s\<in>set ?ss. \<forall>d d'. s d = Inr d' \<longrightarrow> tabs d' n = tabs d n"
    using assms
    by (auto simp: drop_table_def CreateTable_def CreateIndex_def split: if_splits)
  from execute_all_frame[OF this, of d]
  have "tabs (snd (execute_all ?ss d)) n = tabs d n" .
  moreover have "snd (clear_table t table_name index_list d) = snd (execute_all ?ss d)"
    using True unfolding clear_table_def snd_raise_as by (simp only: if_False not_True_eq_False)
  ultimately show ?thesis by (simp only:)
qed

lemma and_then_frame:
  assumes "tabs (snd r) n = tabs d n" "\<And>d'. tabs (snd (f d')) n = tabs d' n"
  shows "tabs (snd (and_then r f)) n = tabs d n"
  using assms by (cases r) (auto simp: and_then_def split: sum.splits)

lemma clear_all_tables_event: "tabs (snd (clear_all_tables d)) ''event'' = tabs d ''event''"
  unfolding clear_all_tables_def
  by (intro and_then_frame clear_table_frame)
    (simp_all add: token_def balance_def pending_inscriptions_def otc_def otc_record_def)

text \<open>
  C3. \<open>clear_all_tables\<close> calls \<open>clear_table\<close> for \<open>token\<close>, \<open>balance\<close>,
  \<open>pending_inscriptions\<close>, \<open>otc\<close> and \<open>otc_record\<close>, and not for \<open>event\<close>: whatever the store,
  the event table is after the call what it was before. On a store that holds an event and a
  token the call succeeds, the token is gone and the event is still there; on a store with no
  table at all the five tables exist afterwards and the event table does not. The indexes the
  call leaves on the empty store are listed as well: an index name that is already taken is
  skipped, so \<open>otc\<close> has no index on \<open>inscription_id\<close>, and \<open>otc_record\<close> none on
  \<open>inscription_id\<close> and \<open>address\<close>.
\<close>

theorem clear_all_tables_leaves_event:
  "tabs (snd (clear_all_tables d)) ''event'' = tabs d ''event''
   \<and> fst (clear_all_tables db_with_event_and_token) = Inr ()
   \<and> map_option trows (tabs db_with_event_and_token ''token'') = Some [stored_row token token_1]
   \<and> map_option trows (tabs (snd (clear_all_tables db_with_event_and_token)) ''token'') = Some []
   \<and> map_option trows (tabs (snd (clear_all_tables db_with_event_and_token)) ''event'')
       = Some [event_at ''e1'' 100 1]
   \<and> fst (clear_all_tables empty_db) = Inr ()
   \<and> map (\<lambda>n. map_option trows (tabs (snd (clear_all_tables empty_db)) n))
        [''event'', ''pending_inscriptions'', ''token'', ''balance'', ''otc'', ''otc_record'']
       = [None, Some [], Some [], Some [], Some [], Some []]
   \<and> map (\<lambda>i. (itable i, iname i)) (idxs (snd (clear_all_tables empty_db)))
       = [(''token'', ''deployer''), (''token'', ''inscription_id''), (''balance'', ''tid''),
          (''balance'', ''address''), (''otc'', ''owner''), (''otc'', ''tid1''),
          (''otc'', ''tid2''), (''otc_record'', ''oid'')]"
proof -
  have a: "fst (clear_all_tables db_with_event_and_token) = Inr ()" by code_simp
  have b: "map_option trows (tabs db_with_event_and_token ''token'')
      = Some [stored_row token token_1]" by code_simp
  have c: "map_option trows (tabs (snd (clear_all_tables db_with_event_and_token)) ''token'')
      = Some []" by code_simp
  have e: "map_option trows (tabs (snd (clear_all_tables db_with_event_and_token)) ''event'')
       = Some [event_at ''e1'' 100 1]" by code_simp
  have f: "fst (clear_all_tables empty_db) = Inr ()" by code_simp
  have g: "map (\<lambda>n. map_option trows (tabs (snd (clear_all_tables empty_db)) n))
        [''event'', ''pending_inscriptions'', ''token'', ''balance'', ''otc'', ''otc_record'']
       = [None, Some [], Some [], Some [], Some [], Some []]" by code_simp
  have h: "map (\<lambda>i. (itable i, iname i)) (idxs (snd (clear_all_tables empty_db)))
       = [(''token'', ''deployer''), (''token'', ''inscription_id''), (''balance'', ''tid''),
          (''balance'', ''address''), (''otc'', ''owner''), (''otc'', ''tid1''),
          (''otc'', ''tid2''), (''otc_record'', ''oid'')]" by code_simp
  from clear_all_tables_event[of d] a b c e f g h show ?thesis by (intro conjI)
qed

end
